theory Spec2Isabelle
  imports Main "HOL-Library.Word"
begin

section \<open>The UNIX domain sockets driver (drivers/uds/uds.c)\<close>

text \<open>
  A shallow embedding of the driver's descriptor table and of the operations of
  \<^verbatim>\<open>uds.c\<close>: open, close, select, read, write, cancel, and the helpers
  \<^verbatim>\<open>uds_perform_read\<close>, \<^verbatim>\<open>uds_perform_write\<close>, \<^verbatim>\<open>uds_unsuspend\<close> and \<^verbatim>\<open>uds_reset\<close>.
  The driver is single threaded: every operation is a function from the state before the
  call to the returned value and the state after it.
\<close>

subsection \<open>Constants and types of the header\<close>

text \<open>
  The header \<^verbatim>\<open>uds.h\<close> is not part of the sources at hand. Its sizing constants are
  parameters of the model; its enumerations are datatypes.
\<close>

record uds_config =
  NR_FDS :: nat
  UDS_BUF :: nat
  UDS_SOMAXCONN :: nat
  OPEN_MAX :: nat

type_synonym byte = "8 word"

datatype endpoint = NONE | ENDPT int

datatype cp_grant_id = GRANT_INVALID | GRANT int

type_synonym cdev_id = int

datatype fd_state = UDS_FREE | UDS_INUSE

text \<open>
  The socket type is an integer in the code, compared only with the three socket type
  constants. \<open>SOCK_NONE v\<close> stands for any other value \<open>v\<close>: \<open>-1\<close> after open, \<open>0\<close>
  in a zeroed slot.
\<close>

datatype sock_type = SOCK_STREAM | SOCK_SEQPACKET | SOCK_DGRAM | SOCK_NONE int

datatype mode_bit = UDS_R | UDS_W

text \<open>The bit masks \<^verbatim>\<open>mode\<close>, \<^verbatim>\<open>ops\<close> and \<^verbatim>\<open>sel_ops\<close> are sets of bits.\<close>

datatype cdev_op = CDEV_OP_RD | CDEV_OP_WR | CDEV_OP_ERR | CDEV_NOTIFY

datatype suspension =
    UDS_NOT_SUSPENDED
  | UDS_SUSPENDED_READ
  | UDS_SUSPENDED_WRITE
  | UDS_SUSPENDED_CONNECT
  | UDS_SUSPENDED_ACCEPT

text \<open>
  Error codes. In the code they are negative integers returned in place of a byte count,
  so \<^verbatim>\<open>bytes > 0\<close> holds of a positive count only. \<open>ESAFECOPY\<close> stands for whatever
  error code a failed safe copy returns.
\<close>

datatype errno =
    ENXIO | EINVAL | ENFILE | ENOMEM | EPIPE | ECONNRESET | ENOTCONN | EDONTREPLY
  | EMSGSIZE | ENOENT | EAGAIN | EINTR | ESAFECOPY

text \<open>
  What an operation returns: a count or \<^verbatim>\<open>OK\<close> (\<open>Ret 0\<close>), an error code, the minor
  number of a new socket tagged as cloned, or the mask of the ready operations of a select.
\<close>

datatype retval = Ret nat | Err errno | CDEV_CLONED int | READY_OPS "cdev_op set"

datatype sa_family = AF_UNSPEC | AF_UNIX

text \<open>
  A \<^verbatim>\<open>struct sockaddr_un\<close>. The path is the string held in the \<^verbatim>\<open>sun_path\<close> array,
  whose size is the bound of the \<^verbatim>\<open>strncmp\<close> of the address scan, so that comparison is
  equality of paths.
\<close>

record sockaddr_un =
  sun_family :: sa_family
  sun_path :: string

record ancillary =
  fds :: "int list"
  nfiledes :: nat

text \<open>
  One slot of the descriptor table, \<^verbatim>\<open>uds_fd_t\<close>. The field \<^verbatim>\<open>size\<close> is named
  \<open>size_fd\<close>. Positions and sizes are \<^verbatim>\<open>size_t\<close> in the code and natural numbers
  here: the two agree as long as \<open>pos_fd < UDS_BUF\<close> and \<open>size_fd \<le> UDS_BUF\<close>, where no
  subtraction of the code wraps around. The sticky error \<^verbatim>\<open>err\<close> is \<open>None\<close> for 0.
\<close>

record uds_fd =
  state :: fd_state
  owner :: endpoint
  sel_endpt :: endpoint
  sel_ops :: "cdev_op set"
  buf :: "byte list"
  pos_fd :: nat
  size_fd :: nat
  mode :: "mode_bit set"
  type :: sock_type
  backlog :: "int list"
  backlog_size :: nat
  ancillary_data :: ancillary
  listening :: bool
  peer :: int
  child :: int
  addr :: sockaddr_un
  source :: sockaddr_un
  target :: sockaddr_un
  suspended :: suspension
  susp_endpt :: endpoint
  susp_grant :: cp_grant_id
  susp_size :: nat
  susp_id :: cdev_id
  err :: "errno option"

text \<open>What the driver tells the character device transport.\<close>

datatype reply =
    REPLY_TASK endpoint cdev_id retval
  | REPLY_SELECT endpoint int "cdev_op set"

text \<open>
  The state of the driver: the descriptor table \<^verbatim>\<open>uds_fd_table[NR_FDS]\<close> (indexed by
  minor number), \<^verbatim>\<open>uds_exit_left\<close>, and the two parts of the environment the driver acts
  on: the memory regions behind the grants of its callers and the replies sent so far.
\<close>

record uds_state =
  uds_fd_table :: "nat \<Rightarrow> uds_fd"
  uds_exit_left :: nat
  grants :: "endpoint \<times> cp_grant_id \<Rightarrow> byte list option"
  replies :: "reply list"
  terminated :: bool

text \<open>
  An operation ends in a fault when the driver panics, when it dereferences a slot index
  outside the table (undefined behaviour in C), or when the chain of nested wake-ups
  exceeds the fuel given to the model.
\<close>

datatype fault = PANIC string | BAD_INDEX | OUT_OF_FUEL

definition in_table :: "uds_config \<Rightarrow> int \<Rightarrow> bool" where
  "in_table c i \<longleftrightarrow> 0 \<le> i \<and> i < int (NR_FDS c)"

definition fd_at :: "uds_state \<Rightarrow> int \<Rightarrow> uds_fd" where
  "fd_at s i = uds_fd_table s (nat i)"

definition fd_upd :: "int \<Rightarrow> (uds_fd \<Rightarrow> uds_fd) \<Rightarrow> uds_state \<Rightarrow> uds_state" where
  "fd_upd i f s = s\<lparr>uds_fd_table := (uds_fd_table s)(nat i := f (uds_fd_table s (nat i)))\<rparr>"

subsection \<open>The transport's primitives\<close>

text \<open>
  Modelled from the spec: the safe-copy primitives \<^verbatim>\<open>sys_safecopyto\<close> and
  \<^verbatim>\<open>sys_safecopyfrom\<close> of the transport, which are not part of the sources at hand. A
  grant identifies a memory region in the requester; a copy fails when there is no such
  region or when the range is outside it.
\<close>

definition sys_safecopyto ::
  "endpoint \<Rightarrow> cp_grant_id \<Rightarrow> nat \<Rightarrow> byte list \<Rightarrow> uds_state \<Rightarrow> errno + uds_state" where
  "sys_safecopyto endpt grant off bytes s =
     (case grants s (endpt, grant) of
        None \<Rightarrow> Inl ESAFECOPY
      | Some region \<Rightarrow>
          if off + length bytes \<le> length region
          then Inr (s\<lparr>grants := (grants s)((endpt, grant) \<mapsto>
                 take off region @ bytes @ drop (off + length bytes) region)\<rparr>)
          else Inl ESAFECOPY)"

definition sys_safecopyfrom ::
  "endpoint \<Rightarrow> cp_grant_id \<Rightarrow> nat \<Rightarrow> nat \<Rightarrow> uds_state \<Rightarrow> errno + byte list" where
  "sys_safecopyfrom endpt grant off n s =
     (case grants s (endpt, grant) of
        None \<Rightarrow> Inl ESAFECOPY
      | Some region \<Rightarrow>
          if off + n \<le> length region then Inr (take n (drop off region))
          else Inl ESAFECOPY)"

text \<open>Storing \<open>bytes\<close> in a buffer from index \<open>p\<close> on, as a copy into \<^verbatim>\<open>&buf[p]\<close> does.\<close>

definition buf_store :: "nat \<Rightarrow> byte list \<Rightarrow> byte list \<Rightarrow> byte list" where
  "buf_store p bytes b = take p b @ bytes @ drop (p + length bytes) b"

definition chardriver_reply_task :: "endpoint \<Rightarrow> cdev_id \<Rightarrow> retval \<Rightarrow> uds_state \<Rightarrow> uds_state" where
  "chardriver_reply_task endpt rid r s = s\<lparr>replies := replies s @ [REPLY_TASK endpt rid r]\<rparr>"

definition chardriver_reply_select ::
  "endpoint \<Rightarrow> int \<Rightarrow> cdev_op set \<Rightarrow> uds_state \<Rightarrow> uds_state" where
  "chardriver_reply_select endpt minor ops s =
     s\<lparr>replies := replies s @ [REPLY_SELECT endpt minor ops]\<rparr>"

subsection \<open>Reading, writing and waking up\<close>

text \<open>
  \<^verbatim>\<open>uds_perform_read\<close>, \<^verbatim>\<open>uds_perform_write\<close> and \<^verbatim>\<open>uds_unsuspend\<close> call each other:
  a read wakes up a blocked writer, whose write wakes up a blocked reader. The suspension
  of a slot is cleared only after its retried call has returned, so the chain need not
  end. The bodies of the three functions are therefore written first, over the function
  \<open>unsuspend\<close> (respectively \<open>perform_read\<close> and \<open>perform_write\<close>) that they call; the
  recursion is tied afterwards, over a bound on the number of nested wake-ups.
\<close>

text \<open>
  The loop of \<^verbatim>\<open>uds_perform_write\<close> that locates the slot a datagram is written to: the
  first slot of type \<^verbatim>\<open>SOCK_DGRAM\<close> that is bound to the target address of \<open>minor\<close>;
  \<open>None\<close> when the loop ends with \<^verbatim>\<open>peer == -1\<close>.
\<close>

definition locate_peer :: "uds_config \<Rightarrow> int \<Rightarrow> uds_state \<Rightarrow> int option" where
  "locate_peer c minor s =
     map_option int
       (find (\<lambda>i. type (uds_fd_table s i) = SOCK_DGRAM
                  \<and> sun_family (addr (uds_fd_table s i)) = AF_UNIX
                  \<and> sun_path (target (fd_at s minor)) = sun_path (addr (uds_fd_table s i)))
          [0 ..< NR_FDS c])"

text \<open>
  \<^verbatim>\<open>uds_perform_read\<close> and \<^verbatim>\<open>uds_perform_write\<close> are long; their blocks that touch
  the ring buffer and the select state are functions of their own here, named after the
  comments of the code. First the blocks of \<^verbatim>\<open>uds_perform_read\<close> that move the data and
  the tail of the ring buffer. \<open>ring_get\<close> is ``Get the data from the tail of the ring buffer'': \<open>sz\<close>
  bytes from position \<^verbatim>\<open>pos\<close> on go to the requester, in two copies when they wrap
  around the end of the buffer. It returns the error of a failed copy, if any, and the
  state reached (a failed second copy leaves the first one done). \<open>advance_tail\<close> is
  ``Advance the buffer tail'' and ``Reset position if the buffer is empty''.
\<close>

definition ring_get ::
  "uds_config \<Rightarrow> uds_fd \<Rightarrow> endpoint \<Rightarrow> cp_grant_id \<Rightarrow> nat \<Rightarrow> uds_state
    \<Rightarrow> errno option \<times> uds_state" where
  "ring_get c fd endpt grant sz s =
     (let p = pos_fd fd;
          subsize = UDS_BUF c - p;
          subsize = (if subsize > sz then sz else subsize) in
      case sys_safecopyto endpt grant 0 (take subsize (drop p (buf fd))) s of
        Inl r \<Rightarrow> (Some r, s)
      | Inr s1 \<Rightarrow>
         if subsize < sz then
           (case sys_safecopyto endpt grant subsize (take (sz - subsize) (buf fd)) s1 of
              Inl r \<Rightarrow> (Some r, s1)
            | Inr s2 \<Rightarrow> (None, s2))
         else (None, s1))"

definition advance_tail :: "uds_config \<Rightarrow> int \<Rightarrow> nat \<Rightarrow> uds_state \<Rightarrow> uds_state" where
  "advance_tail c minor sz s =
     (let s3 = fd_upd minor
                 (\<lambda>f. f\<lparr>pos_fd := (pos_fd f + sz) mod UDS_BUF c, size_fd := size_fd f - sz\<rparr>) s
      in if size_fd (fd_at s3 minor) = 0
         then fd_upd minor (\<lambda>f. f\<lparr>pos_fd := 0\<rparr>) s3 else s3)"

text \<open>
  The block of \<^verbatim>\<open>uds_perform_write\<close> that moves the data, ``Put the data at the head of
  the ring buffer'': \<open>sz\<close> bytes of the requester go into the buffer of slot \<open>pr\<close> from
  position \<^verbatim>\<open>(pos + size) % UDS_BUF\<close> on, in two copies when they wrap around. The size
  of the buffer is advanced by the caller.
\<close>

definition ring_put ::
  "uds_config \<Rightarrow> int \<Rightarrow> endpoint \<Rightarrow> cp_grant_id \<Rightarrow> nat \<Rightarrow> uds_state
    \<Rightarrow> errno option \<times> uds_state" where
  "ring_put c pr endpt grant sz s =
     (let p = (pos_fd (fd_at s pr) + size_fd (fd_at s pr)) mod UDS_BUF c;
          subsize = UDS_BUF c - p;
          subsize = (if subsize > sz then sz else subsize) in
      case sys_safecopyfrom endpt grant 0 subsize s of
        Inl r \<Rightarrow> (Some r, s)
      | Inr bytes1 \<Rightarrow>
         (let s1 = fd_upd pr (\<lambda>f. f\<lparr>buf := buf_store p bytes1 (buf f)\<rparr>) s in
          if subsize < sz then
            (case sys_safecopyfrom endpt grant subsize (sz - subsize) s1 of
               Inl r \<Rightarrow> (Some r, s1)
             | Inr bytes2 \<Rightarrow>
                 (None, fd_upd pr (\<lambda>f. f\<lparr>buf := buf_store 0 bytes2 (buf f)\<rparr>) s1))
          else (None, s1)))"

text \<open>
  ``Advance the buffer head'' and ``Fill in the source address to be returned by recvfrom,
  recvmsg'', of \<^verbatim>\<open>uds_perform_write\<close>.
\<close>

definition advance_head :: "int \<Rightarrow> int \<Rightarrow> nat \<Rightarrow> uds_state \<Rightarrow> uds_state" where
  "advance_head minor pr sz s =
     (let s3 = fd_upd pr (\<lambda>f. f\<lparr>size_fd := size_fd f + sz\<rparr>) s
      in if type (fd_at s3 minor) = SOCK_DGRAM
         then fd_upd pr (\<lambda>f. f\<lparr>source := addr (fd_at s3 minor)\<rparr>) s3
         else s3)"

text \<open>
  ``See if we can satisfy an ongoing select'', at the end of \<^verbatim>\<open>uds_perform_read\<close>
  (a write on the peer \<open>pr\<close> of \<open>minor\<close> is possible now) and at the end of
  \<^verbatim>\<open>uds_perform_write\<close> (a read on the slot \<open>pr\<close> written to is possible now).
\<close>

definition select_writer :: "uds_config \<Rightarrow> int \<Rightarrow> int \<Rightarrow> uds_state \<Rightarrow> uds_state" where
  "select_writer c minor pr s =
     (if pr \<noteq> -1 \<and> CDEV_OP_WR \<in> sel_ops (fd_at s pr) \<and> size_fd (fd_at s minor) < UDS_BUF c
      then fd_upd pr (\<lambda>f. f\<lparr>sel_ops := sel_ops f - {CDEV_OP_WR}\<rparr>)
             (chardriver_reply_select (sel_endpt (fd_at s pr)) pr {CDEV_OP_WR} s)
      else s)"

definition select_reader :: "int \<Rightarrow> uds_state \<Rightarrow> uds_state" where
  "select_reader pr s =
     (if CDEV_OP_RD \<in> sel_ops (fd_at s pr) \<and> size_fd (fd_at s pr) > 0
      then fd_upd pr (\<lambda>f. f\<lparr>sel_ops := sel_ops f - {CDEV_OP_RD}\<rparr>)
             (chardriver_reply_select (sel_endpt (fd_at s pr)) pr {CDEV_OP_RD} s)
      else s)"

type_synonym unsuspend_fn = "int \<Rightarrow> uds_state \<Rightarrow> fault + uds_state"

type_synonym perform_fn =
  "int \<Rightarrow> endpoint \<Rightarrow> cp_grant_id \<Rightarrow> nat \<Rightarrow> bool \<Rightarrow> uds_state \<Rightarrow> fault + retval \<times> uds_state"

definition perform_read_body :: "unsuspend_fn \<Rightarrow> uds_config \<Rightarrow> perform_fn" where
  "perform_read_body unsuspend c minor endpt grant sz pretend s =
     (let fd = fd_at s minor; pr = peer fd in
      if sz = 0 then Inr (Ret 0, s)
      else if UDS_R \<notin> mode fd then Inr (Err EPIPE, s)
      else if size_fd fd = 0 then
        (if pr = -1 \<and> (type fd = SOCK_STREAM \<or> type fd = SOCK_SEQPACKET) then
           (if err fd = Some ECONNRESET
            then Inr (Err ECONNRESET,
                      if \<not> pretend then fd_upd minor (\<lambda>f. f\<lparr>err := None\<rparr>) s else s)
            else Inr (Err ENOTCONN, s))
         else if pr \<noteq> -1 \<and> \<not> in_table c pr then Inl BAD_INDEX
         else if pr \<noteq> -1 \<and> UDS_W \<notin> mode (fd_at s pr) \<and> size_fd fd = 0 then Inr (Ret 0, s)
         else if pretend then Inr (Err EDONTREPLY, s)
         else if pr \<noteq> -1 \<and> suspended (fd_at s pr) = UDS_SUSPENDED_WRITE
           then Inl (PANIC ''writer blocked on empty socket'')
         else Inr (Err EDONTREPLY, s))
      else
        (let sz = (if sz > size_fd fd then size_fd fd else sz) in
         if pretend then Inr (Ret sz, s)
         else
          (case ring_get c fd endpt grant sz s of
             (Some r, s1) \<Rightarrow> Inr (Err r, s1)
           | (None, s2) \<Rightarrow>
              (let s4 = advance_tail c minor sz s2 in
               if pr \<noteq> -1 \<and> \<not> in_table c pr then Inl BAD_INDEX
               else
                (case (if pr \<noteq> -1 \<and> suspended (fd_at s4 pr) = UDS_SUSPENDED_WRITE
                       then unsuspend pr s4 else Inr s4) of
                   Inl f \<Rightarrow> Inl f
                 | Inr s5 \<Rightarrow>
                    Inr (Ret sz, select_writer c minor pr s5))))))"

definition perform_write_body :: "unsuspend_fn \<Rightarrow> uds_config \<Rightarrow> perform_fn" where
  "perform_write_body unsuspend c minor endpt grant sz pretend s =
     (let fd = fd_at s minor in
      if sz = 0 then Inr (Ret 0, s)
      else if UDS_W \<notin> mode fd then Inr (Err EPIPE, s)
      else if sz > UDS_BUF c \<and> type fd \<noteq> SOCK_STREAM then Inr (Err EMSGSIZE, s)
      else if (type fd = SOCK_STREAM \<or> type fd = SOCK_SEQPACKET) \<and> peer fd = -1 then
        (if err fd = Some ECONNRESET
         then Inr (Err ECONNRESET,
                   if \<not> pretend then fd_upd minor (\<lambda>f. f\<lparr>err := None\<rparr>) s else s)
         else Inr (Err ENOTCONN, s))
      else if (type fd = SOCK_STREAM \<or> type fd = SOCK_SEQPACKET) \<and> \<not> in_table c (peer fd)
        then Inl BAD_INDEX
      else if (type fd = SOCK_STREAM \<or> type fd = SOCK_SEQPACKET) \<and> peer (fd_at s (peer fd)) = -1
        then Inr (Err EDONTREPLY, s)
      else
        (case (if type fd = SOCK_STREAM \<or> type fd = SOCK_SEQPACKET then Some (peer fd)
               else locate_peer c minor s) of
           None \<Rightarrow> Inr (Err ENOENT, s)
         | Some pr \<Rightarrow>
            if UDS_R \<notin> mode (fd_at s pr) then Inr (Err EPIPE, s)
            else if type fd = SOCK_DGRAM \<and> size_fd (fd_at s pr) > 0 then Inr (Ret sz, s)
            else if size_fd (fd_at s pr) = UDS_BUF c
                    \<or> (type fd = SOCK_SEQPACKET \<and> size_fd (fd_at s pr) > 0) then
              (if pretend then Inr (Err EDONTREPLY, s)
               else if suspended (fd_at s pr) = UDS_SUSPENDED_READ
                 then Inl (PANIC ''reader blocked on full socket'')
               else Inr (Err EDONTREPLY, s))
            else
              (let sz = (if sz > UDS_BUF c - size_fd (fd_at s pr)
                         then UDS_BUF c - size_fd (fd_at s pr) else sz) in
               if pretend then Inr (Ret sz, s)
               else
                (case ring_put c pr endpt grant sz s of
                   (Some r, s1) \<Rightarrow> Inr (Err r, s1)
                 | (None, s2) \<Rightarrow>
                    (let s4 = advance_head minor pr sz s2 in
                     case (if suspended (fd_at s4 pr) = UDS_SUSPENDED_READ
                           then unsuspend pr s4 else Inr s4) of
                       Inl f \<Rightarrow> Inl f
                     | Inr s5 \<Rightarrow> Inr (Ret sz, select_reader pr s5))))))"

definition unsuspend_body :: "perform_fn \<Rightarrow> perform_fn \<Rightarrow> unsuspend_fn" where
  "unsuspend_body perform_read perform_write minor s =
     (let fdp = fd_at s minor;
          finish = (\<lambda>r s'. Inr (fd_upd minor (\<lambda>f. f\<lparr>suspended := UDS_NOT_SUSPENDED\<rparr>)
                                  (chardriver_reply_task (susp_endpt (fd_at s' minor))
                                     (susp_id (fd_at s' minor)) r s'))) in
      case suspended fdp of
        UDS_SUSPENDED_READ \<Rightarrow>
          (case perform_read minor (susp_endpt fdp) (susp_grant fdp) (susp_size fdp) False s of
             Inl f \<Rightarrow> Inl f
           | Inr (r, s') \<Rightarrow> if r = Err EDONTREPLY then Inr s' else finish r s')
      | UDS_SUSPENDED_WRITE \<Rightarrow>
          (case perform_write minor (susp_endpt fdp) (susp_grant fdp) (susp_size fdp) False s of
             Inl f \<Rightarrow> Inl f
           | Inr (r, s') \<Rightarrow> if r = Err EDONTREPLY then Inr s' else finish r s')
      | UDS_SUSPENDED_CONNECT \<Rightarrow>
          finish (case err fdp of None \<Rightarrow> Ret 0 | Some e \<Rightarrow> Err e)
            (fd_upd minor (\<lambda>f. f\<lparr>err := None\<rparr>) s)
      | UDS_SUSPENDED_ACCEPT \<Rightarrow>
          finish (case err fdp of None \<Rightarrow> Ret 0 | Some e \<Rightarrow> Err e)
            (fd_upd minor (\<lambda>f. f\<lparr>err := None\<rparr>) s)
      | UDS_NOT_SUSPENDED \<Rightarrow> Inl (PANIC ''unknown suspension type''))"

primrec uds_unsuspend :: "nat \<Rightarrow> uds_config \<Rightarrow> unsuspend_fn" where
  "uds_unsuspend 0 c = (\<lambda>minor s. Inl OUT_OF_FUEL)"
| "uds_unsuspend (Suc n) c =
     unsuspend_body (perform_read_body (uds_unsuspend n c) c)
                    (perform_write_body (uds_unsuspend n c) c)"

definition uds_perform_read :: "nat \<Rightarrow> uds_config \<Rightarrow> perform_fn" where
  "uds_perform_read n c = perform_read_body (uds_unsuspend n c) c"

definition uds_perform_write :: "nat \<Rightarrow> uds_config \<Rightarrow> perform_fn" where
  "uds_perform_write n c = perform_write_body (uds_unsuspend n c) c"

subsection \<open>Cancel, read and write\<close>

text \<open>
  \<^verbatim>\<open>uds_cancel\<close>. Every value of the datatype of suspensions is one of the cases of the
  \<^verbatim>\<open>switch\<close>, so its \<^verbatim>\<open>default\<close> branch has no counterpart here.
\<close>

definition uds_cancel ::
  "uds_config \<Rightarrow> int \<Rightarrow> endpoint \<Rightarrow> cdev_id \<Rightarrow> uds_state \<Rightarrow> retval \<times> uds_state" where
  "uds_cancel c minor endpt rid s =
     (if minor < 0 \<or> minor \<ge> int (NR_FDS c) then (Err EDONTREPLY, s)
      else
       (let fdp = fd_at s minor in
        if state fdp \<noteq> UDS_INUSE then (Err EDONTREPLY, s)
        else if suspended fdp = UDS_NOT_SUSPENDED \<or> susp_endpt fdp \<noteq> endpt
                \<or> susp_id fdp \<noteq> rid
          then (Err EDONTREPLY, s)
        else
         (let s1 = (case suspended fdp of
                      UDS_SUSPENDED_ACCEPT \<Rightarrow>
                        fold (\<lambda>i s'. if child (uds_fd_table s' i) = minor
                                      then fd_upd (int i) (\<lambda>f. f\<lparr>child := -1\<rparr>) s' else s')
                          [0 ..< NR_FDS c] s
                    | _ \<Rightarrow> s)
          in (Err EINTR, fd_upd minor (\<lambda>f. f\<lparr>suspended := UDS_NOT_SUSPENDED\<rparr>) s1))))"

text \<open>
  \<^verbatim>\<open>uds_read\<close> and \<^verbatim>\<open>uds_write\<close>. When the call could not complete, the caller is
  suspended, and a non-blocking call is cancelled at once. The flag \<open>nonblock\<close> is
  \<^verbatim>\<open>flags & CDEV_NONBLOCK\<close>; the argument \<^verbatim>\<open>position\<close> is unused.
\<close>

definition uds_read ::
  "nat \<Rightarrow> uds_config \<Rightarrow> int \<Rightarrow> endpoint \<Rightarrow> cp_grant_id \<Rightarrow> nat \<Rightarrow> bool \<Rightarrow> cdev_id \<Rightarrow> uds_state
    \<Rightarrow> fault + retval \<times> uds_state" where
  "uds_read n c minor endpt grant sz nonblock rid s =
     (if minor < 0 \<or> minor \<ge> int (NR_FDS c) then Inr (Err ENXIO, s)
      else if state (fd_at s minor) \<noteq> UDS_INUSE then Inr (Err EINVAL, s)
      else
       (case uds_perform_read n c minor endpt grant sz False s of
          Inl f \<Rightarrow> Inl f
        | Inr (rc, s1) \<Rightarrow>
            if rc = Err EDONTREPLY then
              (let s2 = fd_upd minor
                          (\<lambda>f. f\<lparr>suspended := UDS_SUSPENDED_READ, susp_endpt := endpt,
                                  susp_grant := grant, susp_size := sz, susp_id := rid\<rparr>) s1
               in if nonblock then Inr (Err EAGAIN, snd (uds_cancel c minor endpt rid s2))
                  else Inr (rc, s2))
            else Inr (rc, s1)))"

definition uds_write ::
  "nat \<Rightarrow> uds_config \<Rightarrow> int \<Rightarrow> endpoint \<Rightarrow> cp_grant_id \<Rightarrow> nat \<Rightarrow> bool \<Rightarrow> cdev_id \<Rightarrow> uds_state
    \<Rightarrow> fault + retval \<times> uds_state" where
  "uds_write n c minor endpt grant sz nonblock rid s =
     (if minor < 0 \<or> minor \<ge> int (NR_FDS c) then Inr (Err ENXIO, s)
      else if state (fd_at s minor) \<noteq> UDS_INUSE then Inr (Err EINVAL, s)
      else
       (case uds_perform_write n c minor endpt grant sz False s of
          Inl f \<Rightarrow> Inl f
        | Inr (rc, s1) \<Rightarrow>
            if rc = Err EDONTREPLY then
              (let s2 = fd_upd minor
                          (\<lambda>f. f\<lparr>suspended := UDS_SUSPENDED_WRITE, susp_endpt := endpt,
                                  susp_grant := grant, susp_size := sz, susp_id := rid\<rparr>) s1
               in if nonblock then Inr (Err EAGAIN, snd (uds_cancel c minor endpt rid s2))
                  else Inr (rc, s2))
            else Inr (rc, s1)))"

subsection \<open>Open, close and select\<close>

text \<open>
  A slot after \<^verbatim>\<open>memset(..., '\0', sizeof(uds_fd_t))\<close>: every field is zero. Zero is
  \<^verbatim>\<open>UDS_FREE\<close> (as \<^verbatim>\<open>uds_init\<close> says) and is taken to be \<^verbatim>\<open>UDS_NOT_SUSPENDED\<close>.
\<close>

definition zero_sockaddr :: sockaddr_un where
  "zero_sockaddr = \<lparr>sun_family = AF_UNSPEC, sun_path = []\<rparr>"

definition zero_fd :: "uds_config \<Rightarrow> uds_fd" where
  "zero_fd c =
     \<lparr>state = UDS_FREE, owner = ENDPT 0, sel_endpt = ENDPT 0, sel_ops = {}, buf = [],
      pos_fd = 0, size_fd = 0, mode = {}, type = SOCK_NONE 0,
      backlog = replicate (UDS_SOMAXCONN c) 0, backlog_size = 0,
      ancillary_data = \<lparr>fds = replicate (OPEN_MAX c) 0, nfiledes = 0\<rparr>,
      listening = False, peer = 0, child = 0,
      addr = zero_sockaddr, source = zero_sockaddr, target = zero_sockaddr,
      suspended = UDS_NOT_SUSPENDED, susp_endpt = ENDPT 0, susp_grant = GRANT 0,
      susp_size = 0, susp_id = 0, err = None\<rparr>"

text \<open>\<^verbatim>\<open>uds_init\<close>: the state in which the driver starts, for the given memory of its callers.\<close>

definition uds_init :: "uds_config \<Rightarrow> (endpoint \<times> cp_grant_id \<Rightarrow> byte list option) \<Rightarrow> uds_state" where
  "uds_init c g =
     \<lparr>uds_fd_table = (\<lambda>i. zero_fd c), uds_exit_left = 0, grants = g, replies = [],
      terminated = False\<rparr>"

text \<open>
  \<^verbatim>\<open>uds_open\<close>, for a table of at least one slot. Whether \<^verbatim>\<open>mmap\<close> succeeds is an input of
  the model; the anonymous mapping it returns is filled with zeros. The fields that the
  code does not assign (\<^verbatim>\<open>err\<close> and the saved request) keep their values.
\<close>

definition uds_open ::
  "uds_config \<Rightarrow> endpoint \<Rightarrow> bool \<Rightarrow> uds_state \<Rightarrow> retval \<times> uds_state" where
  "uds_open c user_endpt mmap_ok s =
     (case find (\<lambda>i. state (uds_fd_table s i) = UDS_FREE) [1 ..< NR_FDS c] of
        None \<Rightarrow> (Err ENFILE, s)
      | Some minor \<Rightarrow>
          if \<not> mmap_ok then (Err ENOMEM, s)
          else (CDEV_CLONED (int minor),
                fd_upd (int minor)
                  (\<lambda>f. f\<lparr>state := UDS_INUSE, owner := user_endpt, sel_endpt := NONE,
                         sel_ops := {}, buf := replicate (UDS_BUF c) 0, pos_fd := 0,
                         size_fd := 0, mode := {UDS_R, UDS_W}, type := SOCK_NONE (-1),
                         backlog := replicate (UDS_SOMAXCONN c) (-1),
                         backlog_size := UDS_SOMAXCONN c,
                         ancillary_data := \<lparr>fds = replicate (OPEN_MAX c) (-1), nfiledes = 0\<rparr>,
                         listening := False, peer := -1, child := -1,
                         addr := zero_sockaddr, source := zero_sockaddr,
                         target := zero_sockaddr, suspended := UDS_NOT_SUSPENDED\<rparr>) s))"

definition uds_reset :: "nat \<Rightarrow> uds_config \<Rightarrow> int \<Rightarrow> uds_state \<Rightarrow> fault + uds_state" where
  "uds_reset n c minor s =
     (if \<not> in_table c minor then Inl BAD_INDEX
      else
       (let s1 = fd_upd minor (\<lambda>f. f\<lparr>peer := -1, err := Some ECONNRESET\<rparr>) s in
        case (if suspended (fd_at s1 minor) \<noteq> UDS_NOT_SUSPENDED
              then uds_unsuspend n c minor s1 else Inr s1) of
          Inl f \<Rightarrow> Inl f
        | Inr s2 \<Rightarrow>
            Inr (if sel_ops (fd_at s2 minor) \<noteq> {}
                 then fd_upd minor (\<lambda>f. f\<lparr>sel_ops := {}\<rparr>)
                        (chardriver_reply_select (sel_endpt (fd_at s2 minor)) minor
                           (sel_ops (fd_at s2 minor)) s2)
                 else s2)))"

text \<open>
  Modelled from the spec: \<^verbatim>\<open>uds_clear_fds\<close>, of the control plane, is not part of the
  sources at hand; it discards the file descriptors pending in the ancillary data.
\<close>

definition uds_clear_fds :: "uds_config \<Rightarrow> int \<Rightarrow> uds_state \<Rightarrow> uds_state" where
  "uds_clear_fds c minor s =
     fd_upd minor
       (\<lambda>f. f\<lparr>ancillary_data := \<lparr>fds = replicate (OPEN_MAX c) (-1), nfiledes = 0\<rparr>\<rparr>) s"

text \<open>The two loops of \<^verbatim>\<open>uds_close\<close> over a backlog, from index \<open>i\<close> on.\<close>

fun backlog_clear :: "int \<Rightarrow> int list \<Rightarrow> int list" where
  "backlog_clear minor [] = []"
| "backlog_clear minor (b # bs) = (if b = minor then -1 # bs else b # backlog_clear minor bs)"

fun backlog_reset :: "nat \<Rightarrow> uds_config \<Rightarrow> int list \<Rightarrow> uds_state \<Rightarrow> fault + uds_state" where
  "backlog_reset n c [] s = Inr s"
| "backlog_reset n c (b # bs) s =
     (if b \<noteq> -1
      then (case uds_reset n c b s of Inl f \<Rightarrow> Inl f | Inr s' \<Rightarrow> backlog_reset n c bs s')
      else backlog_reset n c bs s)"

text \<open>
  \<^verbatim>\<open>uds_close\<close>, in two parts: what it does to the other sockets (a connecting socket is
  cleared from the backlog of its server, the peer of a connected socket is reset, and so
  are the sockets in the backlog of a listening socket), and the release of the slot
  itself. Resetting a socket leaves every backlog as it is, so the loop over the backlog
  of a listening socket runs over the entries read at its start.
\<close>

definition close_peer :: "nat \<Rightarrow> uds_config \<Rightarrow> int \<Rightarrow> uds_state \<Rightarrow> fault + uds_state" where
  "close_peer n c minor s =
     (let pr = peer (fd_at s minor) in
      if pr \<noteq> -1 \<and> \<not> in_table c pr then Inl BAD_INDEX
      else if pr \<noteq> -1 \<and> peer (fd_at s pr) = -1 then
        (if \<not> listening (fd_at s pr)
         then Inl (PANIC ''connecting socket attached to non-server'')
         else Inr (fd_upd pr
                (\<lambda>f. f\<lparr>backlog := backlog_clear minor (take (backlog_size f) (backlog f))
                                    @ drop (backlog_size f) (backlog f)\<rparr>) s))
      else if pr \<noteq> -1 then uds_reset n c pr s
      else if listening (fd_at s minor)
        then backlog_reset n c
               (take (backlog_size (fd_at s minor)) (backlog (fd_at s minor))) s
      else Inr s)"

definition close_slot :: "uds_config \<Rightarrow> int \<Rightarrow> uds_state \<Rightarrow> uds_state" where
  "close_slot c minor s =
     (let s2 = (if nfiledes (ancillary_data (fd_at s minor)) > 0
                then uds_clear_fds c minor s else s);
          s3 = fd_upd minor (\<lambda>f. zero_fd c) s2
      in if uds_exit_left s3 > 0
         then (let s4 = s3\<lparr>uds_exit_left := uds_exit_left s3 - 1\<rparr>
               in if uds_exit_left s4 = 0 then s4\<lparr>terminated := True\<rparr> else s4)
         else s3)"

definition uds_close :: "nat \<Rightarrow> uds_config \<Rightarrow> int \<Rightarrow> uds_state \<Rightarrow> fault + retval \<times> uds_state" where
  "uds_close n c minor s =
     (if minor < 0 \<or> minor \<ge> int (NR_FDS c) then Inr (Err ENXIO, s)
      else if state (fd_at s minor) \<noteq> UDS_INUSE then Inr (Err EINVAL, s)
      else
       (case close_peer n c minor s of
          Inl f \<Rightarrow> Inl f
        | Inr s1 \<Rightarrow> Inr (Ret 0, close_slot c minor s1)))"

text \<open>
  \<^verbatim>\<open>uds_select\<close>. Its two probes, ``Check if there is data available to read'' and
  ``Check if we can write without blocking'', are pretend calls, which wake nobody up, so
  they need no fuel. Each returns the set of ready operations so far.
\<close>

definition select_read ::
  "uds_config \<Rightarrow> int \<Rightarrow> uds_state \<Rightarrow> fault + cdev_op set \<times> uds_state" where
  "select_read c minor s =
     (case uds_perform_read 0 c minor NONE GRANT_INVALID 1 True s of
        Inl f \<Rightarrow> Inl f
      | Inr (bytes, s') \<Rightarrow>
          Inr (if (case bytes of Ret k \<Rightarrow> k > 0 | _ \<Rightarrow> False) then {CDEV_OP_RD}
               else if listening (fd_at s' minor) then
                 (if \<exists>b \<in> set (take (backlog_size (fd_at s' minor))
                                  (backlog (fd_at s' minor))). b \<noteq> -1
                  then {CDEV_OP_RD} else {})
               else if bytes \<noteq> Err EDONTREPLY then {CDEV_OP_RD}
               else {}, s'))"

definition select_write ::
  "uds_config \<Rightarrow> int \<Rightarrow> cdev_op set \<Rightarrow> uds_state \<Rightarrow> fault + cdev_op set \<times> uds_state" where
  "select_write c minor ready_ops s =
     (case uds_perform_write 0 c minor NONE GRANT_INVALID 1 True s of
        Inl f \<Rightarrow> Inl f
      | Inr (bytes, s') \<Rightarrow>
          Inr (if bytes \<noteq> Ret 0 \<and> bytes \<noteq> Err EDONTREPLY
               then ready_ops \<union> {CDEV_OP_WR} else ready_ops, s'))"

definition select_watch ::
  "int \<Rightarrow> cdev_op set \<Rightarrow> bool \<Rightarrow> endpoint \<Rightarrow> uds_state \<Rightarrow> uds_state" where
  "select_watch minor ops watch endpt s =
     (if ops \<noteq> {} \<and> watch
      then fd_upd minor (\<lambda>f. f\<lparr>sel_endpt := endpt, sel_ops := sel_ops f \<union> ops\<rparr>) s
      else s)"

definition uds_select ::
  "uds_config \<Rightarrow> int \<Rightarrow> cdev_op set \<Rightarrow> endpoint \<Rightarrow> uds_state \<Rightarrow> fault + retval \<times> uds_state" where
  "uds_select c minor ops endpt s =
     (if minor < 0 \<or> minor \<ge> int (NR_FDS c) then Inr (Err ENXIO, s)
      else if state (fd_at s minor) \<noteq> UDS_INUSE then Inr (Err EINVAL, s)
      else
       (let watch = (CDEV_NOTIFY \<in> ops);
            ops = ops \<inter> {CDEV_OP_RD, CDEV_OP_WR, CDEV_OP_ERR} in
        case (if CDEV_OP_RD \<in> ops then select_read c minor s else Inr ({}, s)) of
          Inl f \<Rightarrow> Inl f
        | Inr (ready_rd, s1) \<Rightarrow>
           (case (if CDEV_OP_WR \<in> ops then select_write c minor ready_rd s1
                  else Inr (ready_rd, s1)) of
              Inl f \<Rightarrow> Inl f
            | Inr (ready_ops, s2) \<Rightarrow>
                Inr (READY_OPS ready_ops,
                     select_watch minor (ops - ready_ops) watch endpt s2))))"

section \<open>Notions used in the statements\<close>

subsection \<open>The invariant of the ring buffers\<close>

text \<open>
  A slot's ring buffer is well formed when its size is at most the capacity, its position
  is inside the buffer, and an empty buffer starts at position 0. The invariant asks this
  of every slot of the table that is in use.
\<close>

definition ring_ok :: "uds_config \<Rightarrow> uds_fd \<Rightarrow> bool" where
  "ring_ok c f \<longleftrightarrow>
     size_fd f \<le> UDS_BUF c \<and> pos_fd f < UDS_BUF c \<and> (size_fd f = 0 \<longrightarrow> pos_fd f = 0)"

definition buf_inv :: "uds_config \<Rightarrow> uds_state \<Rightarrow> bool" where
  "buf_inv c s \<longleftrightarrow>
     (\<forall>i \<in> {0 ..< NR_FDS c}. state (uds_fd_table s i) = UDS_INUSE \<longrightarrow> ring_ok c (uds_fd_table s i))"

subsection \<open>The slot a write deposits into\<close>

text \<open>
  The slot that \<^verbatim>\<open>uds_perform_write\<close> resolves before it touches any buffer: the peer of a
  stream or sequenced-packet socket, and otherwise the slot that the address scan locates.
\<close>

definition conn_oriented :: "uds_fd \<Rightarrow> bool" where
  "conn_oriented fd \<longleftrightarrow> type fd = SOCK_STREAM \<or> type fd = SOCK_SEQPACKET"

definition write_dest :: "uds_config \<Rightarrow> int \<Rightarrow> uds_state \<Rightarrow> int option" where
  "write_dest c minor s =
     (if conn_oriented (fd_at s minor)
      then (if peer (fd_at s minor) = -1 then None else Some (peer (fd_at s minor)))
      else locate_peer c minor s)"

subsection \<open>Example states\<close>

text \<open>
  A small configuration (four slots, buffers of four bytes) and the states the theorems
  are run on: two sockets in slots 1 and 2, as \<^verbatim>\<open>uds_open\<close> leaves them and linked to each
  other as the control plane does when it connects them; a requester \<open>ENDPT 7\<close> whose grant
  1 holds the bytes \<open>abc\<close>, and a requester \<open>ENDPT 8\<close> whose grant 2 is four bytes long.
\<close>

definition ex_config :: uds_config where
  "ex_config = \<lparr>NR_FDS = 4, UDS_BUF = 4, UDS_SOMAXCONN = 2, OPEN_MAX = 2\<rparr>"

definition ex_grants :: "endpoint \<times> cp_grant_id \<Rightarrow> byte list option" where
  "ex_grants =
     (\<lambda>k. None)((ENDPT 7, GRANT 1) \<mapsto> [97, 98, 99], (ENDPT 8, GRANT 2) \<mapsto> [0, 0, 0, 0])"

definition ex_fd :: "sock_type \<Rightarrow> int \<Rightarrow> uds_fd" where
  "ex_fd t p =
     \<lparr>state = UDS_INUSE, owner = ENDPT 7, sel_endpt = NONE, sel_ops = {},
      buf = [0, 0, 0, 0], pos_fd = 0, size_fd = 0, mode = {UDS_R, UDS_W}, type = t,
      backlog = [-1, -1], backlog_size = 2,
      ancillary_data = \<lparr>fds = [-1, -1], nfiledes = 0\<rparr>,
      listening = False, peer = p, child = -1,
      addr = zero_sockaddr, source = zero_sockaddr, target = zero_sockaddr,
      suspended = UDS_NOT_SUSPENDED, susp_endpt = ENDPT 0, susp_grant = GRANT 0,
      susp_size = 0, susp_id = 0, err = None\<rparr>"

definition ex_pair :: "sock_type \<Rightarrow> uds_state" where
  "ex_pair t =
     \<lparr>uds_fd_table = (\<lambda>i. zero_fd ex_config)(1 := ex_fd t 2, 2 := ex_fd t 1),
      uds_exit_left = 0, grants = ex_grants, replies = [], terminated = False\<rparr>"

text \<open>Slot 1 of the pair with a reader blocked on it: a read of 8 bytes by \<open>ENDPT 7\<close>.\<close>

definition ex_blocked_reader :: uds_state where
  "ex_blocked_reader =
     fd_upd 1 (\<lambda>f. f\<lparr>suspended := UDS_SUSPENDED_READ, susp_endpt := ENDPT 7,
                     susp_grant := GRANT 1, susp_size := 8, susp_id := 100\<rparr>)
       (ex_pair SOCK_STREAM)"

text \<open>The state after the first open of the driver, by \<open>ENDPT 7\<close>.\<close>

definition ex_opened :: uds_state where
  "ex_opened = snd (uds_open ex_config (ENDPT 7) True (uds_init ex_config ex_grants))"

text \<open>
  Datagram sockets: \<open>ex_dgram a t\<close> is bound to the path \<open>a\<close> and sends to the path \<open>t\<close>.
  In \<open>ex_dgram_busy\<close> slot 1 sends to the address of slot 2, which holds a datagram.
\<close>

definition ex_dgram :: "string \<Rightarrow> string \<Rightarrow> uds_fd" where
  "ex_dgram a t =
     (ex_fd SOCK_DGRAM (-1))
       \<lparr>addr := \<lparr>sun_family = AF_UNIX, sun_path = a\<rparr>,
        target := \<lparr>sun_family = AF_UNIX, sun_path = t\<rparr>\<rparr>"

definition ex_dgram_busy :: uds_state where
  "ex_dgram_busy =
     \<lparr>uds_fd_table = (\<lambda>i. zero_fd ex_config)
        (1 := ex_dgram ''/tmp/x'' ''/tmp/y'',
         2 := (ex_dgram ''/tmp/y'' [])\<lparr>buf := [112, 0, 0, 0], size_fd := 1\<rparr>),
      uds_exit_left = 0, grants = ex_grants, replies = [], terminated = False\<rparr>"

subsection \<open>What a write may change\<close>

text \<open>
  \<open>frame d s s'\<close>: from \<open>s\<close> to \<open>s'\<close> no slot has changed its type, its peer, its address
  or its target, and no slot other than \<open>d\<close> has changed its ring buffer.
\<close>

definition frame :: "int \<Rightarrow> uds_state \<Rightarrow> uds_state \<Rightarrow> bool" where
  "frame d s s' \<longleftrightarrow>
     (\<forall>i. type (uds_fd_table s' i) = type (uds_fd_table s i)
        \<and> peer (uds_fd_table s' i) = peer (uds_fd_table s i)
        \<and> addr (uds_fd_table s' i) = addr (uds_fd_table s i)
        \<and> target (uds_fd_table s' i) = target (uds_fd_table s i)
        \<and> (int i \<noteq> d \<longrightarrow> buf (uds_fd_table s' i) = buf (uds_fd_table s i)
              \<and> pos_fd (uds_fd_table s' i) = pos_fd (uds_fd_table s i)
              \<and> size_fd (uds_fd_table s' i) = size_fd (uds_fd_table s i)))"

text \<open>A datagram socket in slot 1 that is bound to the address it sends to.\<close>

definition ex_dgram_self :: uds_state where
  "ex_dgram_self =
     \<lparr>uds_fd_table = (\<lambda>i. zero_fd ex_config)(1 := ex_dgram ''/tmp/x'' ''/tmp/x''),
      uds_exit_left = 0, grants = ex_grants, replies = [], terminated = False\<rparr>"

subsection \<open>Buffer contents and connected pairs\<close>

text \<open>
  The bytes held by a ring buffer, oldest first: \<open>size\<close> bytes starting at index \<open>pos\<close>,
  continuing at index 0 after the last index of the array.
\<close>

definition ring_data :: "uds_fd \<Rightarrow> byte list" where
  "ring_data f = take (size_fd f) (rotate (pos_fd f) (buf f))"

text \<open>
  Two distinct slots in use, of the same type, each the peer of the other: the state that
  a completed connection leaves behind.
\<close>

definition connected :: "uds_config \<Rightarrow> sock_type \<Rightarrow> int \<Rightarrow> int \<Rightarrow> uds_state \<Rightarrow> bool" where
  "connected c t a b s \<longleftrightarrow>
     in_table c a \<and> in_table c b \<and> a \<noteq> b
     \<and> state (fd_at s a) = UDS_INUSE \<and> state (fd_at s b) = UDS_INUSE
     \<and> type (fd_at s a) = t \<and> type (fd_at s b) = t
     \<and> peer (fd_at s a) = b \<and> peer (fd_at s b) = a"

subsection \<open>Sequences of requests\<close>

text \<open>
  A request is the caller, its grant, the number of bytes and the request id. \<open>sent\<close> is
  the data that a write request offers, \<open>received\<close> the data that a read request has
  obtained once the driver has returned \<open>rc\<close>.
\<close>

type_synonym request = "endpoint \<times> cp_grant_id \<times> nat \<times> cdev_id"

definition req_size :: "request \<Rightarrow> nat" where
  "req_size q = (case q of (endpt, grant, sz, rid) \<Rightarrow> sz)"

definition sent :: "uds_state \<Rightarrow> request \<Rightarrow> byte list" where
  "sent s q = (case q of (endpt, grant, sz, rid) \<Rightarrow>
                 (case grants s (endpt, grant) of None \<Rightarrow> [] | Some region \<Rightarrow> take sz region))"

definition received :: "uds_state \<Rightarrow> request \<Rightarrow> retval \<Rightarrow> byte list" where
  "received s q rc = (case q of (endpt, grant, sz, rid) \<Rightarrow>
                 (case (rc, grants s (endpt, grant)) of
                    (Ret k, Some region) \<Rightarrow> take k region
                  | _ \<Rightarrow> []))"

text \<open>
  \<open>write_all\<close> and \<open>read_all\<close> issue the requests of a list one after the other on the
  slot \<open>h\<close>, as blocking calls of \<^const>\<open>uds_write\<close> and \<^const>\<open>uds_read\<close>, and collect the
  results.
\<close>

fun write_all ::
  "nat \<Rightarrow> uds_config \<Rightarrow> int \<Rightarrow> request list \<Rightarrow> uds_state \<Rightarrow> fault + retval list \<times> uds_state" where
  "write_all n c h [] s = Inr ([], s)"
| "write_all n c h (q # qs) s =
     (case q of (endpt, grant, sz, rid) \<Rightarrow>
        (case uds_write n c h endpt grant sz False rid s of
           Inl f \<Rightarrow> Inl f
         | Inr (rc, s') \<Rightarrow>
            (case write_all n c h qs s' of
               Inl f \<Rightarrow> Inl f
             | Inr (rcs, s'') \<Rightarrow> Inr (rc # rcs, s''))))"

fun read_all ::
  "nat \<Rightarrow> uds_config \<Rightarrow> int \<Rightarrow> request list \<Rightarrow> uds_state
    \<Rightarrow> fault + (retval \<times> byte list) list \<times> uds_state" where
  "read_all n c h [] s = Inr ([], s)"
| "read_all n c h (q # qs) s =
     (case q of (endpt, grant, sz, rid) \<Rightarrow>
        (case uds_read n c h endpt grant sz False rid s of
           Inl f \<Rightarrow> Inl f
         | Inr (rc, s') \<Rightarrow>
            (case read_all n c h qs s' of
               Inl f \<Rightarrow> Inl f
             | Inr (out, s'') \<Rightarrow> Inr ((rc, received s' q rc) # out, s''))))"

text \<open>Every request names a grant that is valid and covers the size of the request.\<close>

definition grants_fit :: "uds_state \<Rightarrow> request list \<Rightarrow> bool" where
  "grants_fit s qs \<longleftrightarrow>
     (\<forall>q \<in> set qs. case q of (endpt, grant, sz, rid) \<Rightarrow>
        (case grants s (endpt, grant) of None \<Rightarrow> False | Some region \<Rightarrow> sz \<le> length region))"

text \<open>
  A connected stream pair on which \<open>a\<close> may write and \<open>b\<close> may read, with no writer blocked
  on \<open>a\<close> and no reader blocked on \<open>b\<close>, and the buffer of \<open>b\<close> well formed.
\<close>

definition stream_ready :: "uds_config \<Rightarrow> int \<Rightarrow> int \<Rightarrow> uds_state \<Rightarrow> bool" where
  "stream_ready c a b s \<longleftrightarrow>
     connected c SOCK_STREAM a b s
     \<and> UDS_W \<in> mode (fd_at s a) \<and> UDS_R \<in> mode (fd_at s b)
     \<and> suspended (fd_at s a) \<noteq> UDS_SUSPENDED_WRITE
     \<and> suspended (fd_at s b) \<noteq> UDS_SUSPENDED_READ
     \<and> length (buf (fd_at s b)) = UDS_BUF c \<and> pos_fd (fd_at s b) < UDS_BUF c
     \<and> size_fd (fd_at s b) \<le> UDS_BUF c"

text \<open>
  The stream pair with one byte in the buffer of slot 2, at the last index of the array:
  what is written next goes to index 0.
\<close>

definition ex_wrapped :: uds_state where
  "ex_wrapped =
     fd_upd 2 (\<lambda>f. f\<lparr>buf := [0, 0, 0, 120], pos_fd := 3, size_fd := 1\<rparr>) (ex_pair SOCK_STREAM)"

section \<open>Lemmas about the model\<close>

lemma fd_at_fd_upd [simp]:
  "fd_at (fd_upd i f s) j = (if nat i = nat j then f (fd_at s j) else fd_at s j)"
  by (simp add: fd_at_def fd_upd_def)

lemma fd_upd_other [simp]:
  "grants (fd_upd i f s) = grants s" "replies (fd_upd i f s) = replies s"
  "uds_exit_left (fd_upd i f s) = uds_exit_left s" "terminated (fd_upd i f s) = terminated s"
  by (simp_all add: fd_upd_def)

lemma fd_at_reply_select [simp]:
  "fd_at (chardriver_reply_select e m ops s) j = fd_at s j"
  "grants (chardriver_reply_select e m ops s) = grants s"
  by (simp_all add: fd_at_def chardriver_reply_select_def)

lemma fd_at_reply_task [simp]:
  "fd_at (chardriver_reply_task e i r s) j = fd_at s j"
  "grants (chardriver_reply_task e i r s) = grants s"
  by (simp_all add: fd_at_def chardriver_reply_task_def)

lemma sys_safecopyto_table:
  "sys_safecopyto e g off bs s = Inr s' \<Longrightarrow> uds_fd_table s' = uds_fd_table s"
  by (auto simp: sys_safecopyto_def split: option.splits if_splits)

lemma fd_at_safecopyto:
  "sys_safecopyto e g off bs s = Inr s' \<Longrightarrow> fd_at s' j = fd_at s j"
  by (simp add: fd_at_def sys_safecopyto_table)

lemma buf_inv_table: "uds_fd_table s' = uds_fd_table s \<Longrightarrow> buf_inv c s' = buf_inv c s"
  by (simp add: buf_inv_def)

lemma buf_inv_safecopyto:
  "sys_safecopyto e g off bs s = Inr s' \<Longrightarrow> buf_inv c s' = buf_inv c s"
  by (rule buf_inv_table) (rule sys_safecopyto_table)

lemma buf_inv_reply_select [simp]:
  "buf_inv c (chardriver_reply_select e m ops s) = buf_inv c s"
  by (simp add: buf_inv_def chardriver_reply_select_def)

lemma buf_inv_reply_task [simp]:
  "buf_inv c (chardriver_reply_task e i r s) = buf_inv c s"
  by (simp add: buf_inv_def chardriver_reply_task_def)

lemma buf_inv_fd_upd:
  assumes "buf_inv c s"
    and "state (f (fd_at s i)) = UDS_INUSE \<Longrightarrow> ring_ok c (f (fd_at s i))"
  shows "buf_inv c (fd_upd i f s)"
  using assms by (auto simp: buf_inv_def fd_upd_def fd_at_def)

lemma buf_inv_fd_upd_same:
  assumes "buf_inv c s"
    and "state (f (fd_at s i)) = state (fd_at s i)"
    and "ring_ok c (fd_at s i) \<Longrightarrow> ring_ok c (f (fd_at s i))"
  shows "buf_inv c (fd_upd i f s)"
  using assms by (auto simp: buf_inv_def fd_upd_def fd_at_def)

lemma buf_inv_D:
  "buf_inv c s \<Longrightarrow> in_table c i \<Longrightarrow> state (fd_at s i) = UDS_INUSE \<Longrightarrow> ring_ok c (fd_at s i)"
  by (auto simp: buf_inv_def fd_at_def in_table_def)

lemma buf_inv_fd_upd_frame:
  assumes "\<And>x. state (f x) = state x \<and> pos_fd (f x) = pos_fd x \<and> size_fd (f x) = size_fd x"
  shows "buf_inv c (fd_upd i f s) = buf_inv c s"
  using assms by (auto simp: buf_inv_def fd_upd_def ring_ok_def)

lemma fd_upd_fd_upd [simp]: "fd_upd i g (fd_upd i f s) = fd_upd i (\<lambda>x. g (f x)) s"
  by (simp add: fd_upd_def)

lemma ring_get_table:
  assumes "ring_get c fd endpt grant sz s = (r, s')"
  shows "uds_fd_table s' = uds_fd_table s"
proof -
  have "sys_safecopyto e g off bs t = Inr t' \<Longrightarrow> uds_fd_table t' = uds_fd_table t"
    for e g off bs t t'
    by (rule sys_safecopyto_table)
  with assms show ?thesis
    by (fastforce simp: ring_get_def Let_def split: sum.splits if_splits)
qed

lemma buf_inv_advance_tail:
  assumes "buf_inv c s" "0 < sz" "sz \<le> size_fd (fd_at s minor)"
  shows "buf_inv c (advance_tail c minor sz s)"
  using assms
  by (auto simp: advance_tail_def Let_def ring_ok_def intro!: buf_inv_fd_upd_same)

lemma perform_read_body_early:
  assumes r: "perform_read_body unsuspend c minor endpt grant sz pretend s = Inr (rc, s')"
    and e: "sz = 0 \<or> UDS_R \<notin> mode (fd_at s minor) \<or> size_fd (fd_at s minor) = 0 \<or> pretend"
  shows "s' = s \<or> (\<not> pretend \<and> s' = fd_upd minor (\<lambda>f. f\<lparr>err := None\<rparr>) s)"
proof -
  consider "sz = 0" | "sz \<noteq> 0" "UDS_R \<notin> mode (fd_at s minor)"
    | "sz \<noteq> 0" "UDS_R \<in> mode (fd_at s minor)" "size_fd (fd_at s minor) = 0"
    | "sz \<noteq> 0" "UDS_R \<in> mode (fd_at s minor)" "size_fd (fd_at s minor) \<noteq> 0" "pretend"
    using e by auto
  then show ?thesis
  proof cases
    case 1
    with r show ?thesis by (simp add: perform_read_body_def)
  next
    case 2
    with r show ?thesis by (simp add: perform_read_body_def Let_def)
  next
    case 3
    with r show ?thesis
      by (auto simp add: perform_read_body_def Let_def split: if_splits)
  next
    case 4
    with r show ?thesis
      by (auto simp add: perform_read_body_def Let_def split: if_splits)
  qed
qed

lemma perform_read_body_data:
  assumes "sz \<noteq> 0" "UDS_R \<in> mode (fd_at s minor)" "size_fd (fd_at s minor) \<noteq> 0" "\<not> pretend"
    and "n = (if sz > size_fd (fd_at s minor) then size_fd (fd_at s minor) else sz)"
    and "pr = peer (fd_at s minor)"
  shows "perform_read_body unsuspend c minor endpt grant sz pretend s =
          (case ring_get c (fd_at s minor) endpt grant n s of
             (Some r, s1) \<Rightarrow> Inr (Err r, s1)
           | (None, s2) \<Rightarrow>
               if pr \<noteq> -1 \<and> \<not> in_table c pr then Inl BAD_INDEX
               else
                (case (if pr \<noteq> -1
                          \<and> suspended (fd_at (advance_tail c minor n s2) pr) = UDS_SUSPENDED_WRITE
                       then unsuspend pr (advance_tail c minor n s2)
                       else Inr (advance_tail c minor n s2)) of
                   Inl f \<Rightarrow> Inl f
                 | Inr s5 \<Rightarrow> Inr (Ret n, select_writer c minor pr s5)))"
  unfolding assms(5,6) perform_read_body_def Let_def using assms(1-4) by simp

lemma perform_read_bodyE:
  assumes r: "perform_read_body unsuspend c minor endpt grant sz pretend s = Inr (rc, s')"
  obtains (same) "s' = s"
    | (reset) "\<not> pretend" "s' = fd_upd minor (\<lambda>f. f\<lparr>err := None\<rparr>) s"
    | (copy_failed) e n where "\<not> pretend" "UDS_R \<in> mode (fd_at s minor)"
        "0 < n" "n \<le> size_fd (fd_at s minor)" "n \<le> sz"
        "ring_get c (fd_at s minor) endpt grant n s = (Some e, s')" "rc = Err e"
    | (data) n s2 s5 where "\<not> pretend" "UDS_R \<in> mode (fd_at s minor)"
        "0 < n" "n \<le> size_fd (fd_at s minor)" "n \<le> sz" "rc = Ret n"
        "ring_get c (fd_at s minor) endpt grant n s = (None, s2)"
        "peer (fd_at s minor) = -1 \<or> in_table c (peer (fd_at s minor))"
        "(if peer (fd_at s minor) \<noteq> -1
             \<and> suspended (fd_at (advance_tail c minor n s2) (peer (fd_at s minor)))
                 = UDS_SUSPENDED_WRITE
          then unsuspend (peer (fd_at s minor)) (advance_tail c minor n s2)
          else Inr (advance_tail c minor n s2)) = Inr s5"
        "s' = select_writer c minor (peer (fd_at s minor)) s5"
proof (cases "sz = 0 \<or> UDS_R \<notin> mode (fd_at s minor) \<or> size_fd (fd_at s minor) = 0 \<or> pretend")
  case True
  from perform_read_body_early [OF r True] show ?thesis
    using same reset by blast
next
  case False
  define n where "n = (if sz > size_fd (fd_at s minor) then size_fd (fd_at s minor) else sz)"
  define pr where "pr = peer (fd_at s minor)"
  have n: "0 < n" "n \<le> size_fd (fd_at s minor)" "n \<le> sz" using False by (auto simp: n_def)
  obtain e s2 where g: "ring_get c (fd_at s minor) endpt grant n s = (e, s2)"
    by (cases "ring_get c (fd_at s minor) endpt grant n s") auto
  have r': "(case e of
               Some r \<Rightarrow> Inr (Err r, s2)
             | None \<Rightarrow>
                 if pr \<noteq> -1 \<and> \<not> in_table c pr then Inl BAD_INDEX
                 else
                  (case (if pr \<noteq> -1
                            \<and> suspended (fd_at (advance_tail c minor n s2) pr) = UDS_SUSPENDED_WRITE
                         then unsuspend pr (advance_tail c minor n s2)
                         else Inr (advance_tail c minor n s2)) of
                     Inl f \<Rightarrow> Inl f
                   | Inr s5 \<Rightarrow> Inr (Ret n, select_writer c minor pr s5))) = Inr (rc, s')"
    using r False g perform_read_body_data [of sz s minor pretend n pr unsuspend c endpt grant, OF _ _ _ _ n_def pr_def]
    by (simp split: option.splits)
  show ?thesis
  proof (cases e)
    case (Some a)
    with r' g n False show ?thesis by (intro copy_failed [of n a]) simp_all
  next
    case None
    with r' have t: "pr = -1 \<or> in_table c pr" by (auto split: if_splits)
    with r' None obtain s5 where
      "(if pr \<noteq> -1 \<and> suspended (fd_at (advance_tail c minor n s2) pr) = UDS_SUSPENDED_WRITE
        then unsuspend pr (advance_tail c minor n s2)
        else Inr (advance_tail c minor n s2)) = Inr s5"
      "rc = Ret n" "s' = select_writer c minor pr s5"
      by (cases "(if pr \<noteq> -1 \<and> suspended (fd_at (advance_tail c minor n s2) pr) = UDS_SUSPENDED_WRITE
                  then unsuspend pr (advance_tail c minor n s2)
                  else Inr (advance_tail c minor n s2))") auto
    with t g n None False show ?thesis
      unfolding pr_def by (intro data [of n s2 s5]) simp_all
  qed
qed

lemma perform_write_body_dest:
  assumes "sz \<noteq> 0" "UDS_W \<in> mode (fd_at s minor)"
    "\<not> (sz > UDS_BUF c \<and> type (fd_at s minor) \<noteq> SOCK_STREAM)"
  shows "perform_write_body unsuspend c minor endpt grant sz pretend s =
     (case write_dest c minor s of
        None \<Rightarrow>
          if conn_oriented (fd_at s minor) then
            (if err (fd_at s minor) = Some ECONNRESET
             then Inr (Err ECONNRESET,
                       if \<not> pretend then fd_upd minor (\<lambda>f. f\<lparr>err := None\<rparr>) s else s)
             else Inr (Err ENOTCONN, s))
          else Inr (Err ENOENT, s)
      | Some pr \<Rightarrow>
      (let n = (if sz > UDS_BUF c - size_fd (fd_at s pr)
                then UDS_BUF c - size_fd (fd_at s pr) else sz) in
      if conn_oriented (fd_at s minor) \<and> \<not> in_table c pr then Inl BAD_INDEX
      else if conn_oriented (fd_at s minor) \<and> peer (fd_at s pr) = -1 then Inr (Err EDONTREPLY, s)
      else if UDS_R \<notin> mode (fd_at s pr) then Inr (Err EPIPE, s)
      else if type (fd_at s minor) = SOCK_DGRAM \<and> size_fd (fd_at s pr) > 0 then Inr (Ret sz, s)
      else if size_fd (fd_at s pr) = UDS_BUF c
              \<or> (type (fd_at s minor) = SOCK_SEQPACKET \<and> size_fd (fd_at s pr) > 0) then
        (if pretend then Inr (Err EDONTREPLY, s)
         else if suspended (fd_at s pr) = UDS_SUSPENDED_READ
           then Inl (PANIC ''reader blocked on full socket'')
         else Inr (Err EDONTREPLY, s))
      else if pretend then Inr (Ret n, s)
      else
        (case ring_put c pr endpt grant n s of
           (Some r, s1) \<Rightarrow> Inr (Err r, s1)
         | (None, s2) \<Rightarrow>
            (case (if suspended (fd_at (advance_head minor pr n s2) pr) = UDS_SUSPENDED_READ
                   then unsuspend pr (advance_head minor pr n s2)
                   else Inr (advance_head minor pr n s2)) of
               Inl f \<Rightarrow> Inl f
             | Inr s5 \<Rightarrow> Inr (Ret n, select_reader pr s5)))))"
proof (cases "type (fd_at s minor)")
  case SOCK_STREAM
  with assms(1-3) show ?thesis
    unfolding perform_write_body_def write_dest_def conn_oriented_def Let_def
    by (simp cong: option.case_cong)
next
  case SOCK_SEQPACKET
  with assms(1-3) show ?thesis
    unfolding perform_write_body_def write_dest_def conn_oriented_def Let_def
    by (simp cong: option.case_cong)
next
  case SOCK_DGRAM
  with assms(1-3) show ?thesis
    unfolding perform_write_body_def write_dest_def conn_oriented_def Let_def
    by (simp cong: option.case_cong)
next
  case (SOCK_NONE v)
  with assms(1-3) show ?thesis
    unfolding perform_write_body_def write_dest_def conn_oriented_def Let_def
    by (simp cong: option.case_cong)
qed

lemma perform_write_bodyE:
  assumes r: "perform_write_body unsuspend c minor endpt grant sz pretend s = Inr (rc, s')"
  obtains (same) "s' = s"
    | (reset) "\<not> pretend" "s' = fd_upd minor (\<lambda>f. f\<lparr>err := None\<rparr>) s"
    | (copy_failed) pr n e where "\<not> pretend" "write_dest c minor s = Some pr"
        "conn_oriented (fd_at s minor) \<longrightarrow> in_table c pr"
        "size_fd (fd_at s pr) \<noteq> UDS_BUF c"
        "n = (if sz > UDS_BUF c - size_fd (fd_at s pr) then UDS_BUF c - size_fd (fd_at s pr) else sz)"
        "ring_put c pr endpt grant n s = (Some e, s')" "rc = Err e"
    | (data) pr n s2 s5 where "\<not> pretend" "sz \<noteq> 0" "write_dest c minor s = Some pr"
        "conn_oriented (fd_at s minor) \<longrightarrow> in_table c pr"
        "UDS_R \<in> mode (fd_at s pr)"
        "size_fd (fd_at s pr) \<noteq> UDS_BUF c"
        "type (fd_at s minor) = SOCK_SEQPACKET \<or> type (fd_at s minor) = SOCK_DGRAM
           \<longrightarrow> size_fd (fd_at s pr) = 0"
        "n = (if sz > UDS_BUF c - size_fd (fd_at s pr) then UDS_BUF c - size_fd (fd_at s pr) else sz)"
        "rc = Ret n"
        "ring_put c pr endpt grant n s = (None, s2)"
        "(if suspended (fd_at (advance_head minor pr n s2) pr) = UDS_SUSPENDED_READ
          then unsuspend pr (advance_head minor pr n s2)
          else Inr (advance_head minor pr n s2)) = Inr s5"
        "s' = select_reader pr s5"
proof (cases "sz = 0 \<or> UDS_W \<notin> mode (fd_at s minor)
              \<or> (sz > UDS_BUF c \<and> type (fd_at s minor) \<noteq> SOCK_STREAM)")
  case True
  then consider "sz = 0" | "sz \<noteq> 0" "UDS_W \<notin> mode (fd_at s minor)"
    | "sz \<noteq> 0" "UDS_W \<in> mode (fd_at s minor)"
      "sz > UDS_BUF c \<and> type (fd_at s minor) \<noteq> SOCK_STREAM"
    by auto
  then have "s' = s"
  proof cases
    case 1
    with r show ?thesis by (simp add: perform_write_body_def)
  next
    case 2
    with r show ?thesis by (simp add: perform_write_body_def Let_def)
  next
    case 3
    with r show ?thesis by (simp add: perform_write_body_def Let_def)
  qed
  then show ?thesis by (rule same)
next
  case False
  then have pre: "sz \<noteq> 0" "UDS_W \<in> mode (fd_at s minor)"
    "\<not> (sz > UDS_BUF c \<and> type (fd_at s minor) \<noteq> SOCK_STREAM)"
    by auto
  note body = perform_write_body_dest [OF pre, of unsuspend endpt grant pretend]
  show ?thesis
  proof (cases "write_dest c minor s")
    case None
    with r body have "s' = s \<or> (\<not> pretend \<and> s' = fd_upd minor (\<lambda>f. f\<lparr>err := None\<rparr>) s)"
      by (cases "conn_oriented (fd_at s minor)"; cases "err (fd_at s minor) = Some ECONNRESET";
          cases pretend) auto
    then show ?thesis using same reset by blast
  next
    case (Some pr)
    define n where
      "n = (if sz > UDS_BUF c - size_fd (fd_at s pr) then UDS_BUF c - size_fd (fd_at s pr) else sz)"
    define blocked where "blocked \<longleftrightarrow> size_fd (fd_at s pr) = UDS_BUF c
              \<or> (type (fd_at s minor) = SOCK_SEQPACKET \<and> size_fd (fd_at s pr) > 0)"
    define dropped where "dropped \<longleftrightarrow> type (fd_at s minor) = SOCK_DGRAM \<and> size_fd (fd_at s pr) > 0"
    have r': "(if conn_oriented (fd_at s minor) \<and> \<not> in_table c pr then Inl BAD_INDEX
      else if conn_oriented (fd_at s minor) \<and> peer (fd_at s pr) = -1 then Inr (Err EDONTREPLY, s)
      else if UDS_R \<notin> mode (fd_at s pr) then Inr (Err EPIPE, s)
      else if dropped then Inr (Ret sz, s)
      else if blocked then
        (if pretend then Inr (Err EDONTREPLY, s)
         else if suspended (fd_at s pr) = UDS_SUSPENDED_READ
           then Inl (PANIC ''reader blocked on full socket'')
         else Inr (Err EDONTREPLY, s))
      else if pretend then Inr (Ret n, s)
      else
        (case ring_put c pr endpt grant n s of
           (Some r, s1) \<Rightarrow> Inr (Err r, s1)
         | (None, s2) \<Rightarrow>
            (case (if suspended (fd_at (advance_head minor pr n s2) pr) = UDS_SUSPENDED_READ
                   then unsuspend pr (advance_head minor pr n s2)
                   else Inr (advance_head minor pr n s2)) of
               Inl f \<Rightarrow> Inl f
             | Inr s5 \<Rightarrow> Inr (Ret n, select_reader pr s5)))) = Inr (rc, s')"
      using r body Some unfolding n_def blocked_def dropped_def by (simp add: Let_def)
    show ?thesis
    proof (cases "(conn_oriented (fd_at s minor) \<and> peer (fd_at s pr) = -1)
                  \<or> UDS_R \<notin> mode (fd_at s pr) \<or> dropped \<or> blocked \<or> pretend")
      case True
      with r' have "s' = s" by (auto split: if_splits)
      then show ?thesis by (rule same)
    next
      case False
      with r' have t: "conn_oriented (fd_at s minor) \<longrightarrow> in_table c pr"
        by (auto split: if_splits)
      obtain e s2 where g: "ring_put c pr endpt grant n s = (e, s2)"
        by (cases "ring_put c pr endpt grant n s") auto
      have r'': "(case e of Some r \<Rightarrow> Inr (Err r, s2)
          | None \<Rightarrow>
            (case (if suspended (fd_at (advance_head minor pr n s2) pr) = UDS_SUSPENDED_READ
                   then unsuspend pr (advance_head minor pr n s2)
                   else Inr (advance_head minor pr n s2)) of
               Inl f \<Rightarrow> Inl f
             | Inr s5 \<Rightarrow> Inr (Ret n, select_reader pr s5))) = Inr (rc, s')"
        using r' False t g
        by (cases "conn_oriented (fd_at s minor)") (simp_all split: option.splits)
      have props: "UDS_R \<in> mode (fd_at s pr)" "size_fd (fd_at s pr) \<noteq> UDS_BUF c"
        "type (fd_at s minor) = SOCK_SEQPACKET \<or> type (fd_at s minor) = SOCK_DGRAM
           \<longrightarrow> size_fd (fd_at s pr) = 0" "\<not> pretend"
        using False by (auto simp: blocked_def dropped_def)
      show ?thesis
      proof (cases e)
        case (Some a)
        with r'' g have "ring_put c pr endpt grant n s = (Some a, s')" "rc = Err a" by auto
        with props t \<open>write_dest c minor s = Some pr\<close> show ?thesis
          by (intro copy_failed [of pr n a]) (simp_all add: n_def)
      next
        case None
        with r'' obtain s5 where
          "(if suspended (fd_at (advance_head minor pr n s2) pr) = UDS_SUSPENDED_READ
            then unsuspend pr (advance_head minor pr n s2)
            else Inr (advance_head minor pr n s2)) = Inr s5"
          "rc = Ret n" "s' = select_reader pr s5"
          by (cases "(if suspended (fd_at (advance_head minor pr n s2) pr) = UDS_SUSPENDED_READ
            then unsuspend pr (advance_head minor pr n s2)
            else Inr (advance_head minor pr n s2))") auto
        with props t g None pre \<open>write_dest c minor s = Some pr\<close> show ?thesis
          by (intro data [of pr n s2 s5]) (simp_all add: n_def)
      qed
    qed
  qed
qed

lemma unsuspend_bodyE:
  assumes r: "unsuspend_body perform_read perform_write minor s = Inr s'"
  obtains (read_blocked) "suspended (fd_at s minor) = UDS_SUSPENDED_READ"
        "perform_read minor (susp_endpt (fd_at s minor)) (susp_grant (fd_at s minor))
           (susp_size (fd_at s minor)) False s = Inr (Err EDONTREPLY, s')"
    | (write_blocked) "suspended (fd_at s minor) = UDS_SUSPENDED_WRITE"
        "perform_write minor (susp_endpt (fd_at s minor)) (susp_grant (fd_at s minor))
           (susp_size (fd_at s minor)) False s = Inr (Err EDONTREPLY, s')"
    | (read_done) rc s1 where "suspended (fd_at s minor) = UDS_SUSPENDED_READ"
        "perform_read minor (susp_endpt (fd_at s minor)) (susp_grant (fd_at s minor))
           (susp_size (fd_at s minor)) False s = Inr (rc, s1)" "rc \<noteq> Err EDONTREPLY"
        "s' = fd_upd minor (\<lambda>f. f\<lparr>suspended := UDS_NOT_SUSPENDED\<rparr>)
                (chardriver_reply_task (susp_endpt (fd_at s1 minor)) (susp_id (fd_at s1 minor)) rc s1)"
    | (write_done) rc s1 where "suspended (fd_at s minor) = UDS_SUSPENDED_WRITE"
        "perform_write minor (susp_endpt (fd_at s minor)) (susp_grant (fd_at s minor))
           (susp_size (fd_at s minor)) False s = Inr (rc, s1)" "rc \<noteq> Err EDONTREPLY"
        "s' = fd_upd minor (\<lambda>f. f\<lparr>suspended := UDS_NOT_SUSPENDED\<rparr>)
                (chardriver_reply_task (susp_endpt (fd_at s1 minor)) (susp_id (fd_at s1 minor)) rc s1)"
    | (linked) "suspended (fd_at s minor) = UDS_SUSPENDED_CONNECT
                \<or> suspended (fd_at s minor) = UDS_SUSPENDED_ACCEPT"
        "s' = fd_upd minor (\<lambda>f. f\<lparr>err := None, suspended := UDS_NOT_SUSPENDED\<rparr>)
                (chardriver_reply_task (susp_endpt (fd_at s minor)) (susp_id (fd_at s minor))
                   (case err (fd_at s minor) of None \<Rightarrow> Ret 0 | Some e \<Rightarrow> Err e) s)"
proof (cases "suspended (fd_at s minor)")
  case UDS_NOT_SUSPENDED
  with r show ?thesis by (simp add: unsuspend_body_def Let_def)
next
  case UDS_SUSPENDED_READ
  with r show ?thesis
    using read_blocked read_done
    by (auto simp: unsuspend_body_def Let_def split: sum.splits if_splits)
next
  case UDS_SUSPENDED_WRITE
  with r show ?thesis
    using write_blocked write_done
    by (auto simp: unsuspend_body_def Let_def split: sum.splits if_splits)
next
  case UDS_SUSPENDED_CONNECT
  with r show ?thesis
    using linked by (auto simp: unsuspend_body_def Let_def chardriver_reply_task_def fd_upd_def fd_at_def)
next
  case UDS_SUSPENDED_ACCEPT
  with r show ?thesis
    using linked by (auto simp: unsuspend_body_def Let_def chardriver_reply_task_def fd_upd_def fd_at_def)
qed

lemma fd_upd_triv [simp]: "fd_upd i (\<lambda>f. f) s = s"
  by (simp add: fd_upd_def)

lemma ring_put_cases:
  assumes "ring_put c pr endpt grant n s = (r, s')"
  shows "\<exists>b. s' = fd_upd pr (\<lambda>f. f\<lparr>buf := b f\<rparr>) s"
proof -
  define p where "p = (pos_fd (fd_at s pr) + size_fd (fd_at s pr)) mod UDS_BUF c"
  define sub where "sub = (if UDS_BUF c - p > n then n else UDS_BUF c - p)"
  have a: "s = fd_upd pr (\<lambda>f. f\<lparr>buf := buf f\<rparr>) s" by simp
  have eq: "ring_put c pr endpt grant n s =
     (case sys_safecopyfrom endpt grant 0 sub s of
        Inl r \<Rightarrow> (Some r, s)
      | Inr bytes1 \<Rightarrow>
          if sub < n then
            (case sys_safecopyfrom endpt grant sub (n - sub)
                    (fd_upd pr (\<lambda>f. f\<lparr>buf := buf_store p bytes1 (buf f)\<rparr>) s) of
               Inl r \<Rightarrow> (Some r, fd_upd pr (\<lambda>f. f\<lparr>buf := buf_store p bytes1 (buf f)\<rparr>) s)
             | Inr bytes2 \<Rightarrow>
                 (None, fd_upd pr (\<lambda>f. f\<lparr>buf := buf_store 0 bytes2 (buf_store p bytes1 (buf f))\<rparr>) s))
          else (None, fd_upd pr (\<lambda>f. f\<lparr>buf := buf_store p bytes1 (buf f)\<rparr>) s))"
    unfolding ring_put_def Let_def p_def sub_def by (simp cong: sum.case_cong if_cong)
  show ?thesis
  proof (cases "sys_safecopyfrom endpt grant 0 sub s")
    case (Inl e)
    with assms eq have "s' = s" by simp
    with a show ?thesis by (intro exI [of _ buf]) simp
  next
    case (Inr x)
    show ?thesis
    proof (cases "sub < n")
      case False
      with assms eq Inr show ?thesis by (intro exI [of _ "\<lambda>f. buf_store p x (buf f)"]) simp
    next
      case True
      show ?thesis
      proof (cases "sys_safecopyfrom endpt grant sub (n - sub)
                    (fd_upd pr (\<lambda>f. f\<lparr>buf := buf_store p x (buf f)\<rparr>) s)")
        case (Inl e)
        with assms eq Inr True show ?thesis
          by (intro exI [of _ "\<lambda>f. buf_store p x (buf f)"]) simp
      next
        case (Inr y)
        with assms eq \<open>sys_safecopyfrom endpt grant 0 sub s = Inr x\<close> True show ?thesis
          by (intro exI [of _ "\<lambda>f. buf_store 0 y (buf_store p x (buf f))"]) simp
      qed
    qed
  qed
qed

lemma buf_inv_ring_put:
  assumes "ring_put c pr endpt grant n s = (r, s')"
  shows "buf_inv c s' = buf_inv c s"
  using ring_put_cases [OF assms] by (auto simp: buf_inv_fd_upd_frame)

lemma fd_at_ring_put:
  assumes "ring_put c pr endpt grant n s = (r, s')"
  shows "\<exists>b. fd_at s' j = (fd_at s j)\<lparr>buf := b\<rparr>"
proof -
  from ring_put_cases [OF assms] obtain b where "s' = fd_upd pr (\<lambda>f. f\<lparr>buf := b f\<rparr>) s" ..
  then have "fd_at s' j = (fd_at s j)\<lparr>buf := (if nat pr = nat j then b (fd_at s j) else buf (fd_at s j))\<rparr>"
    by simp
  then show ?thesis ..
qed

lemma buf_inv_advance_head:
  assumes "buf_inv c s" "n \<le> UDS_BUF c - size_fd (fd_at s pr)"
  shows "buf_inv c (advance_head minor pr n s)"
  using assms
  by (auto simp: advance_head_def Let_def ring_ok_def intro!: buf_inv_fd_upd_same)

lemma buf_inv_select_writer [simp]: "buf_inv c (select_writer c minor pr s) = buf_inv c s"
  by (simp add: select_writer_def buf_inv_fd_upd_frame)

lemma buf_inv_select_reader [simp]: "buf_inv c (select_reader pr s) = buf_inv c s"
  by (simp add: select_reader_def buf_inv_fd_upd_frame)

lemma perform_read_body_inv:
  assumes u: "\<And>x t t'. unsuspend x t = Inr t' \<Longrightarrow> buf_inv c t \<Longrightarrow> buf_inv c t'"
    and r: "perform_read_body unsuspend c minor endpt grant sz pretend s = Inr (rc, s')"
    and i: "buf_inv c s"
  shows "buf_inv c s'"
  using r
proof (cases rule: perform_read_bodyE)
  case same
  with i show ?thesis by simp
next
  case reset
  with i show ?thesis by (simp add: buf_inv_fd_upd_frame)
next
  case (copy_failed e n)
  then have "uds_fd_table s' = uds_fd_table s" by (intro ring_get_table)
  with i show ?thesis by (simp add: buf_inv_def)
next
  case (data n s2 s5)
  have "uds_fd_table s2 = uds_fd_table s" using data(7) by (rule ring_get_table)
  then have "buf_inv c s2" "fd_at s2 minor = fd_at s minor"
    using i by (simp_all add: buf_inv_def fd_at_def)
  then have "buf_inv c (advance_tail c minor n s2)"
    using data(3,4) by (intro buf_inv_advance_tail) simp_all
  then have "buf_inv c s5"
    using data(9) u [of "peer (fd_at s minor)" "advance_tail c minor n s2" s5]
    by (cases "peer (fd_at s minor) \<noteq> -1
                \<and> suspended (fd_at (advance_tail c minor n s2) (peer (fd_at s minor)))
                    = UDS_SUSPENDED_WRITE") simp_all
  then show ?thesis by (simp add: data(10))
qed

lemma perform_write_body_inv:
  assumes u: "\<And>x t t'. unsuspend x t = Inr t' \<Longrightarrow> buf_inv c t \<Longrightarrow> buf_inv c t'"
    and r: "perform_write_body unsuspend c minor endpt grant sz pretend s = Inr (rc, s')"
    and i: "buf_inv c s"
  shows "buf_inv c s'"
  using r
proof (cases rule: perform_write_bodyE)
  case same
  with i show ?thesis by simp
next
  case reset
  with i show ?thesis by (simp add: buf_inv_fd_upd_frame)
next
  case (copy_failed pr n e)
  with i show ?thesis using buf_inv_ring_put [OF copy_failed(6)] by simp
next
  case (data pr n s2 s5)
  have "buf_inv c s2" using i buf_inv_ring_put [OF data(10)] by simp
  moreover have "size_fd (fd_at s2 pr) = size_fd (fd_at s pr)"
    using fd_at_ring_put [OF data(10), of pr] by auto
  ultimately have "buf_inv c (advance_head minor pr n s2)"
    using data(8) by (intro buf_inv_advance_head) auto
  then have "buf_inv c s5"
    using data(11) u [of pr "advance_head minor pr n s2" s5]
    by (cases "suspended (fd_at (advance_head minor pr n s2) pr) = UDS_SUSPENDED_READ") simp_all
  then show ?thesis by (simp add: data(12))
qed

lemma unsuspend_body_inv:
  assumes pr: "\<And>m e g z p t rc t'. perform_read m e g z p t = Inr (rc, t') \<Longrightarrow> buf_inv c t
                 \<Longrightarrow> buf_inv c t'"
    and pw: "\<And>m e g z p t rc t'. perform_write m e g z p t = Inr (rc, t') \<Longrightarrow> buf_inv c t
                 \<Longrightarrow> buf_inv c t'"
    and r: "unsuspend_body perform_read perform_write minor s = Inr s'"
    and i: "buf_inv c s"
  shows "buf_inv c s'"
  using r
proof (cases rule: unsuspend_bodyE)
  case read_blocked
  then show ?thesis using pr i by blast
next
  case write_blocked
  then show ?thesis using pw i by blast
next
  case (read_done rc s1)
  then have "buf_inv c s1" using pr i by blast
  then show ?thesis by (simp add: read_done(4) buf_inv_fd_upd_frame)
next
  case (write_done rc s1)
  then have "buf_inv c s1" using pw i by blast
  then show ?thesis by (simp add: write_done(4) buf_inv_fd_upd_frame)
next
  case linked
  with i show ?thesis by (simp add: buf_inv_fd_upd_frame)
qed

lemma uds_unsuspend_inv:
  "uds_unsuspend n c minor s = Inr s' \<Longrightarrow> buf_inv c s \<Longrightarrow> buf_inv c s'"
proof (induction n arbitrary: minor s s')
  case 0
  then show ?case by simp
next
  case (Suc n)
  have u: "\<And>x t t'. uds_unsuspend n c x t = Inr t' \<Longrightarrow> buf_inv c t \<Longrightarrow> buf_inv c t'"
    using Suc.IH by blast
  have "unsuspend_body (perform_read_body (uds_unsuspend n c) c)
          (perform_write_body (uds_unsuspend n c) c) minor s = Inr s'"
    using Suc.prems(1) by simp
  then show ?case
    using Suc.prems(2)
  proof (rule unsuspend_body_inv [rotated 2])
    show "buf_inv c t'"
      if "perform_read_body (uds_unsuspend n c) c m e g z p t = Inr (rc, t')" "buf_inv c t"
      for m e g z p t rc t'
      using u that by (rule perform_read_body_inv)
    show "buf_inv c t'"
      if "perform_write_body (uds_unsuspend n c) c m e g z p t = Inr (rc, t')" "buf_inv c t"
      for m e g z p t rc t'
      using u that by (rule perform_write_body_inv)
  qed
qed

lemma uds_perform_read_inv:
  "uds_perform_read n c minor endpt grant sz pretend s = Inr (rc, s') \<Longrightarrow> buf_inv c s
    \<Longrightarrow> buf_inv c s'"
  unfolding uds_perform_read_def
  by (erule perform_read_body_inv [rotated]) (auto intro: uds_unsuspend_inv)

lemma uds_perform_write_inv:
  "uds_perform_write n c minor endpt grant sz pretend s = Inr (rc, s') \<Longrightarrow> buf_inv c s
    \<Longrightarrow> buf_inv c s'"
  unfolding uds_perform_write_def
  by (erule perform_write_body_inv [rotated]) (auto intro: uds_unsuspend_inv)

lemma buf_inv_cancel_fold:
  "buf_inv c (fold (\<lambda>i s'. if child (uds_fd_table s' i) = m
                                then fd_upd (int i) (\<lambda>f. f\<lparr>child := -1\<rparr>) s' else s') xs s)
    = buf_inv c s"
  by (induction xs arbitrary: s) (simp_all add: buf_inv_fd_upd_frame)

lemma uds_cancel_inv:
  "buf_inv c s \<Longrightarrow> buf_inv c (snd (uds_cancel c minor endpt rid s))"
  by (cases "suspended (fd_at s minor)")
     (simp_all add: uds_cancel_def Let_def buf_inv_fd_upd_frame buf_inv_cancel_fold)

lemma suspend_inv:
  assumes "buf_inv c s1"
  shows "buf_inv c (snd (uds_cancel c minor endpt rid
           (fd_upd minor (\<lambda>f. f\<lparr>suspended := k, susp_endpt := endpt, susp_grant := grant,
                                 susp_size := sz, susp_id := rid\<rparr>) s1)))"
  using assms by (intro uds_cancel_inv) (simp add: buf_inv_fd_upd_frame)

lemma uds_read_inv:
  assumes r: "uds_read n c minor endpt grant sz nonblock rid s = Inr (rc, s')"
    and i: "buf_inv c s"
  shows "buf_inv c s'"
proof (cases "minor < 0 \<or> minor \<ge> int (NR_FDS c) \<or> state (fd_at s minor) \<noteq> UDS_INUSE")
  case True
  with r i show ?thesis by (auto simp: uds_read_def split: if_splits)
next
  case False
  then obtain rc1 s1 where p: "uds_perform_read n c minor endpt grant sz False s = Inr (rc1, s1)"
    using r by (cases "uds_perform_read n c minor endpt grant sz False s") (auto simp: uds_read_def)
  then have s1: "buf_inv c s1" using i by (rule uds_perform_read_inv)
  from r False p have "s' = s1
      \<or> s' = fd_upd minor (\<lambda>f. f\<lparr>suspended := UDS_SUSPENDED_READ, susp_endpt := endpt,
                       susp_grant := grant, susp_size := sz, susp_id := rid\<rparr>) s1
      \<or> s' = snd (uds_cancel c minor endpt rid
           (fd_upd minor (\<lambda>f. f\<lparr>suspended := UDS_SUSPENDED_READ, susp_endpt := endpt,
                       susp_grant := grant, susp_size := sz, susp_id := rid\<rparr>) s1))"
    by (cases "rc1 = Err EDONTREPLY"; cases nonblock) (auto simp: uds_read_def Let_def)
  then show ?thesis
    using s1 suspend_inv [OF s1] by (auto simp: buf_inv_fd_upd_frame)
qed

lemma uds_write_inv:
  assumes r: "uds_write n c minor endpt grant sz nonblock rid s = Inr (rc, s')"
    and i: "buf_inv c s"
  shows "buf_inv c s'"
proof (cases "minor < 0 \<or> minor \<ge> int (NR_FDS c) \<or> state (fd_at s minor) \<noteq> UDS_INUSE")
  case True
  with r i show ?thesis by (auto simp: uds_write_def split: if_splits)
next
  case False
  then obtain rc1 s1 where p: "uds_perform_write n c minor endpt grant sz False s = Inr (rc1, s1)"
    using r by (cases "uds_perform_write n c minor endpt grant sz False s") (auto simp: uds_write_def)
  then have s1: "buf_inv c s1" using i by (rule uds_perform_write_inv)
  from r False p have "s' = s1
      \<or> s' = fd_upd minor (\<lambda>f. f\<lparr>suspended := UDS_SUSPENDED_WRITE, susp_endpt := endpt,
                       susp_grant := grant, susp_size := sz, susp_id := rid\<rparr>) s1
      \<or> s' = snd (uds_cancel c minor endpt rid
           (fd_upd minor (\<lambda>f. f\<lparr>suspended := UDS_SUSPENDED_WRITE, susp_endpt := endpt,
                       susp_grant := grant, susp_size := sz, susp_id := rid\<rparr>) s1))"
    by (cases "rc1 = Err EDONTREPLY"; cases nonblock) (auto simp: uds_write_def Let_def)
  then show ?thesis
    using s1 suspend_inv [OF s1] by (auto simp: buf_inv_fd_upd_frame)
qed

lemma uds_open_inv:
  assumes "0 < UDS_BUF c" "buf_inv c s"
  shows "buf_inv c (snd (uds_open c user_endpt mmap_ok s))"
proof (cases "find (\<lambda>i. state (uds_fd_table s i) = UDS_FREE) [1 ..< NR_FDS c]")
  case None
  with assms show ?thesis by (simp add: uds_open_def)
next
  case (Some minor)
  with assms show ?thesis
    by (cases mmap_ok) (auto simp: uds_open_def ring_ok_def intro!: buf_inv_fd_upd)
qed

lemma uds_reset_inv:
  assumes r: "uds_reset n c minor s = Inr s'" and i: "buf_inv c s"
  shows "buf_inv c s'"
proof -
  define s1 where "s1 = fd_upd minor (\<lambda>f. f\<lparr>peer := -1, err := Some ECONNRESET\<rparr>) s"
  have s1: "buf_inv c s1" using i by (simp add: s1_def buf_inv_fd_upd_frame)
  from r obtain s2 where
    u: "(if suspended (fd_at s1 minor) \<noteq> UDS_NOT_SUSPENDED
         then uds_unsuspend n c minor s1 else Inr s1) = Inr s2"
    and s': "s' = (if sel_ops (fd_at s2 minor) \<noteq> {}
                  then fd_upd minor (\<lambda>f. f\<lparr>sel_ops := {}\<rparr>)
                         (chardriver_reply_select (sel_endpt (fd_at s2 minor)) minor
                            (sel_ops (fd_at s2 minor)) s2)
                  else s2)"
    unfolding uds_reset_def Let_def s1_def [symmetric]
    by (cases "in_table c minor";
        cases "(if suspended (fd_at s1 minor) \<noteq> UDS_NOT_SUSPENDED
                then uds_unsuspend n c minor s1 else Inr s1)") auto
  from u have "buf_inv c s2"
    using s1 uds_unsuspend_inv [of n c minor s1 s2]
    by (cases "suspended (fd_at s1 minor) \<noteq> UDS_NOT_SUSPENDED") simp_all
  then show ?thesis by (simp add: s' buf_inv_fd_upd_frame)
qed

lemma backlog_reset_inv:
  "backlog_reset n c bs s = Inr s' \<Longrightarrow> buf_inv c s \<Longrightarrow> buf_inv c s'"
proof (induction bs arbitrary: s)
  case Nil
  then show ?case by simp
next
  case (Cons b bs)
  show ?case
  proof (cases "b \<noteq> -1")
    case True
    with Cons.prems(1) obtain s1 where "uds_reset n c b s = Inr s1" "backlog_reset n c bs s1 = Inr s'"
      by (cases "uds_reset n c b s") auto
    with Cons.prems(2) Cons.IH uds_reset_inv show ?thesis by blast
  next
    case False
    with Cons show ?thesis by simp
  qed
qed

lemma buf_inv_exit_left [simp]:
  "buf_inv c (s\<lparr>uds_exit_left := e\<rparr>) = buf_inv c s"
  "buf_inv c (s\<lparr>terminated := b\<rparr>) = buf_inv c s"
  by (simp_all add: buf_inv_def)

lemma close_peer_inv:
  assumes r: "close_peer n c minor s = Inr s'" and i: "buf_inv c s"
  shows "buf_inv c s'"
proof -
  define pr where "pr = peer (fd_at s minor)"
  have r': "(if pr \<noteq> -1 \<and> \<not> in_table c pr then Inl BAD_INDEX
      else if pr \<noteq> -1 \<and> peer (fd_at s pr) = -1 then
        (if \<not> listening (fd_at s pr)
         then Inl (PANIC ''connecting socket attached to non-server'')
         else Inr (fd_upd pr
                (\<lambda>f. f\<lparr>backlog := backlog_clear minor (take (backlog_size f) (backlog f))
                                    @ drop (backlog_size f) (backlog f)\<rparr>) s))
      else if pr \<noteq> -1 then uds_reset n c pr s
      else if listening (fd_at s minor)
        then backlog_reset n c
               (take (backlog_size (fd_at s minor)) (backlog (fd_at s minor))) s
      else Inr s) = Inr s'"
    using r unfolding close_peer_def pr_def Let_def .
  show ?thesis
  proof (cases "pr \<noteq> -1")
    case True
    note pr = this
    show ?thesis
    proof (cases "peer (fd_at s pr) = -1")
      case True
      with r' pr have "s' = fd_upd pr
                (\<lambda>f. f\<lparr>backlog := backlog_clear minor (take (backlog_size f) (backlog f))
                                    @ drop (backlog_size f) (backlog f)\<rparr>) s"
        by (cases "in_table c pr"; cases "listening (fd_at s pr)") simp_all
      with i show ?thesis by (simp add: buf_inv_fd_upd_frame)
    next
      case False
      with r' pr have "uds_reset n c pr s = Inr s'"
        by (cases "in_table c pr") simp_all
      with i show ?thesis by (rule uds_reset_inv [rotated])
    qed
  next
    case False
    show ?thesis
    proof (cases "listening (fd_at s minor)")
      case True
      with r' False have "backlog_reset n c
               (take (backlog_size (fd_at s minor)) (backlog (fd_at s minor))) s = Inr s'"
        by simp
      with i show ?thesis by (rule backlog_reset_inv [rotated])
    next
      case False
      with r' \<open>\<not> pr \<noteq> -1\<close> i show ?thesis by simp
    qed
  qed
qed

lemma close_slot_inv:
  assumes "buf_inv c s"
  shows "buf_inv c (close_slot c minor s)"
proof -
  have "buf_inv c (if nfiledes (ancillary_data (fd_at s minor)) > 0
                   then uds_clear_fds c minor s else s)"
    using assms by (simp add: uds_clear_fds_def buf_inv_fd_upd_frame)
  then have "buf_inv c (fd_upd minor (\<lambda>f. zero_fd c)
               (if nfiledes (ancillary_data (fd_at s minor)) > 0
                then uds_clear_fds c minor s else s))"
    by (rule buf_inv_fd_upd) (simp add: zero_fd_def)
  then show ?thesis
    unfolding close_slot_def Let_def by simp
qed

lemma uds_close_inv:
  assumes r: "uds_close n c minor s = Inr (rc, s')" and i: "buf_inv c s"
  shows "buf_inv c s'"
proof (cases "minor < 0 \<or> minor \<ge> int (NR_FDS c) \<or> state (fd_at s minor) \<noteq> UDS_INUSE")
  case True
  with r i show ?thesis by (auto simp: uds_close_def split: if_splits)
next
  case False
  with r obtain s1 where "close_peer n c minor s = Inr s1" "s' = close_slot c minor s1"
    by (cases "close_peer n c minor s") (auto simp: uds_close_def)
  with i show ?thesis by (auto intro: close_slot_inv close_peer_inv)
qed

lemma select_read_inv:
  assumes "select_read c minor s = Inr (ops, s')" "buf_inv c s"
  shows "buf_inv c s'"
proof -
  from assms(1) obtain b where "uds_perform_read 0 c minor NONE GRANT_INVALID 1 True s = Inr (b, s')"
    unfolding select_read_def
    by (cases "uds_perform_read 0 c minor NONE GRANT_INVALID 1 True s") auto
  then show ?thesis using assms(2) by (rule uds_perform_read_inv)
qed

lemma select_write_inv:
  assumes "select_write c minor ready s = Inr (ops, s')" "buf_inv c s"
  shows "buf_inv c s'"
proof -
  from assms(1) obtain b where "uds_perform_write 0 c minor NONE GRANT_INVALID 1 True s = Inr (b, s')"
    unfolding select_write_def
    by (cases "uds_perform_write 0 c minor NONE GRANT_INVALID 1 True s") auto
  then show ?thesis using assms(2) by (rule uds_perform_write_inv)
qed

lemma uds_select_inv:
  assumes r: "uds_select c minor ops endpt s = Inr (rc, s')" and i: "buf_inv c s"
  shows "buf_inv c s'"
proof (cases "minor < 0 \<or> minor \<ge> int (NR_FDS c) \<or> state (fd_at s minor) \<noteq> UDS_INUSE")
  case True
  with r i show ?thesis by (auto simp: uds_select_def split: if_splits)
next
  case False
  define ops' where "ops' = ops \<inter> {CDEV_OP_RD, CDEV_OP_WR, CDEV_OP_ERR}"
  define rd where "rd = (if CDEV_OP_RD \<in> ops' then select_read c minor s else Inr ({}, s))"
  from r False obtain ready_rd s1 where rd: "rd = Inr (ready_rd, s1)"
    unfolding uds_select_def Let_def rd_def ops'_def by (cases rd) (auto simp: rd_def ops'_def)
  define wr where "wr = (if CDEV_OP_WR \<in> ops' then select_write c minor ready_rd s1
                  else Inr (ready_rd, s1))"
  from r False rd obtain ready_ops s2 where wr: "wr = Inr (ready_ops, s2)"
    unfolding uds_select_def Let_def rd_def wr_def ops'_def
    by (cases wr) (auto simp: wr_def ops'_def)
  from r False rd wr have s': "s' = select_watch minor (ops' - ready_ops) (CDEV_NOTIFY \<in> ops) endpt s2"
    unfolding uds_select_def Let_def rd_def wr_def ops'_def by auto
  have "buf_inv c s1"
    using rd i select_read_inv unfolding rd_def by (cases "CDEV_OP_RD \<in> ops'") auto
  then have "buf_inv c s2"
    using wr select_write_inv unfolding wr_def by (cases "CDEV_OP_WR \<in> ops'") auto
  then show ?thesis by (simp add: s' select_watch_def buf_inv_fd_upd_frame)
qed
subsection \<open>The contents of the ring buffer\<close>

lemma mod_wrap: "x < 2 * B \<Longrightarrow> x mod B = (if x < B then x else x - B)" for x B :: nat
  by (auto simp: not_less le_mod_geq)

lemma two_segments:
  assumes "p < length b" "n \<le> length b"
  shows "take (min (length b - p) n) (drop p b) @ take (n - min (length b - p) n) b
           = take n (rotate p b)"
proof -
  have "rotate p b = drop p b @ take p b"
    using assms(1) by (simp add: rotate_drop_take)
  then have "take n (rotate p b) = take n (drop p b) @ take (n - (length b - p)) (take p b)"
    by simp
  also have "take n (drop p b) = take (min (length b - p) n) (drop p b)"
    by (cases "n \<le> length b - p") (simp_all add: min_def)
  also have "take (n - (length b - p)) (take p b) = take (n - min (length b - p) n) b"
    using assms by (cases "n \<le> length b - p") (auto simp: min_def)
  finally show ?thesis by simp
qed

lemma length_buf_store [simp]:
  "p + length d \<le> length b \<Longrightarrow> length (buf_store p d b) = length b"
  by (simp add: buf_store_def)

lemma nth_buf_store:
  assumes "p + length d \<le> length b" "i < length b"
  shows "buf_store p d b ! i = (if p \<le> i \<and> i < p + length d then d ! (i - p) else b ! i)"
  using assms by (auto simp: buf_store_def nth_append)

lemma ring_index_old:
  fixes pos sz n k B p i sub :: nat
  assumes "pos < B" "sz + n \<le> B" "k < sz"
    and p: "p = (if pos + sz < B then pos + sz else pos + sz - B)"
    and i: "i = (if pos + k < B then pos + k else pos + k - B)"
    and sub: "sub \<le> n" "sub \<le> B - p" "sub < n \<Longrightarrow> sub = B - p"
  shows "\<not> (p \<le> i \<and> i < p + sub)" and "\<not> (sub < n \<and> i < n - sub)"
proof -
  show "\<not> (p \<le> i \<and> i < p + sub)"
  proof (cases "pos + sz < B")
    case True
    then have "p = pos + sz" "i = pos + k" using p i assms(3) by simp_all
    then show ?thesis using assms(3) by simp
  next
    case False
    then have pp: "p = pos + sz - B" using p by simp
    show ?thesis
    proof (cases "pos + k < B")
      case True
      then have "i = pos + k" using i by simp
      moreover have "p + sub \<le> pos" using pp sub(1) assms(2) False by simp
      ultimately show ?thesis by simp
    next
      case nk: False
      then have "i = pos + k - B" using i by simp
      then have "i < p" using pp nk assms(3) by simp
      then show ?thesis by simp
    qed
  qed
  show "\<not> (sub < n \<and> i < n - sub)"
  proof
    assume a: "sub < n \<and> i < n - sub"
    then have s: "sub = B - p" using sub(3) by simp
    show False
    proof (cases "pos + sz < B")
      case True
      then have "p = pos + sz" "i = pos + k" using p i assms(3) by simp_all
      then show ?thesis using a s assms(2) True by arith
    next
      case False
      then have "p = pos + sz - B" using p by simp
      then have "n < B - p" using assms(1,2) False by simp
      then show ?thesis using a s by simp
    qed
  qed
qed

lemma ring_index_new:
  fixes pos sz n k B p i sub :: nat
  assumes "pos < B" "sz + n \<le> B" "sz \<le> k" "k < sz + n"
    and p: "p = (if pos + sz < B then pos + sz else pos + sz - B)"
    and i: "i = (if pos + k < B then pos + k else pos + k - B)"
    and sub: "sub \<le> n" "sub \<le> B - p" "sub < n \<Longrightarrow> sub = B - p"
  shows "k - sz < sub \<Longrightarrow> i = p + (k - sz) \<and> \<not> (sub < n \<and> i < n - sub)"
    and "\<not> k - sz < sub \<Longrightarrow> sub < n \<and> i = k - sz - sub \<and> i < n - sub"
proof -
  assume a: "k - sz < sub"
  show "i = p + (k - sz) \<and> \<not> (sub < n \<and> i < n - sub)"
  proof (cases "pos + sz < B")
    case True
    then have pp: "p = pos + sz" using p by simp
    then have "pos + k < B" using a sub(2) assms(3) by simp
    then have "i = pos + k" using i by simp
    then have "i = p + (k - sz)" using pp assms(3) by simp
    moreover have "sub < n \<Longrightarrow> n - sub \<le> i"
      using sub(3) pp \<open>i = pos + k\<close> assms(2) True by simp
    ultimately show ?thesis by auto
  next
    case False
    then have pp: "p = pos + sz - B" using p by simp
    then have "n < B - p" using assms(1,2) False by simp
    then have ns: "\<not> sub < n" using sub(3) by auto
    have "i = p + (k - sz)"
    proof (cases "pos + k < B")
      case True
      then show ?thesis using False assms(3) by simp
    next
      case nk: False
      then have "i = pos + k - B" using i by simp
      then show ?thesis using pp False assms(3) by simp
    qed
    with ns show ?thesis by simp
  qed
next
  assume a: "\<not> k - sz < sub"
  then have sn: "sub < n" using assms(3,4) by simp
  then have s: "sub = B - p" by (rule sub(3))
  have pB: "p < B" using p assms(1,2) by (simp split: if_splits)
  have pp: "p = pos + sz"
  proof (rule ccontr)
    assume "p \<noteq> pos + sz"
    then have "p = pos + sz - B" "\<not> pos + sz < B" using p by (simp_all split: if_splits)
    then have "n < B - p" using assms(1,2) by simp
    then show False using sn s by simp
  qed
  then have "\<not> pos + k < B" using a s pB assms(3) by simp
  then have "i = pos + k - B" using i by simp
  then have "i = k - sz - sub" using pp s a pB assms(3) by simp
  moreover have "i < n - sub" using \<open>i = k - sz - sub\<close> a assms(3,4) sn by simp
  ultimately show "sub < n \<and> i = k - sz - sub \<and> i < n - sub" using sn by simp
qed

lemma ring_store:
  fixes b d :: "'a list"
  assumes B: "length b = B" and pos: "pos < B" and sz: "sz + n \<le> B" and d: "n \<le> length d"
  defines "p \<equiv> (pos + sz) mod B"
  defines "sub \<equiv> (if B - p > n then n else B - p)"
  defines "b1 \<equiv> take p b @ take sub d @ drop (p + length (take sub d)) b"
  defines "b2 \<equiv> (if sub < n
                  then take 0 b1 @ take (n - sub) (drop sub d)
                       @ drop (0 + length (take (n - sub) (drop sub d))) b1
                  else b1)"
  shows "length b2 = B"
    and "take (sz + n) (rotate pos b2) = take sz (rotate pos b) @ take n d"
proof -
  have p: "p < B" using pos by (simp add: p_def)
  have sub: "sub \<le> n" "sub \<le> B - p" "sub < n \<Longrightarrow> sub = B - p"
    by (auto simp: sub_def)
  have l1: "length b1 = B"
    using B p sub d by (simp add: b1_def min_def)
  show l2: "length b2 = B"
    using l1 sub d sz by (auto simp: b2_def min_def)
  have n1: "b1 ! i = (if p \<le> i \<and> i < p + sub then d ! (i - p) else b ! i)" if "i < B" for i
    using that B p sub d by (auto simp: b1_def nth_append min_def)
  have n2: "b2 ! i = (if sub < n \<and> i < n - sub then d ! (sub + i) else b1 ! i)" if "i < B" for i
    using that l1 sub d sz by (auto simp: b2_def nth_append min_def)
  have pw: "p = (if pos + sz < B then pos + sz else pos + sz - B)"
    using pos sz unfolding p_def by (intro mod_wrap) simp
  show "take (sz + n) (rotate pos b2) = take sz (rotate pos b) @ take n d"
  proof (rule nth_equalityI)
    show "length (take (sz + n) (rotate pos b2)) = length (take sz (rotate pos b) @ take n d)"
      using l2 B sz d by simp
  next
    fix k
    assume "k < length (take (sz + n) (rotate pos b2))"
    then have k: "k < sz + n" by simp
    then have kB: "k < B" using sz by simp
    define i where "i = (pos + k) mod B"
    have i: "i < B" using pos by (simp add: i_def)
    have iw: "i = (if pos + k < B then pos + k else pos + k - B)"
      using pos kB unfolding i_def by (intro mod_wrap) simp
    have lhs: "take (sz + n) (rotate pos b2) ! k = b2 ! i"
      using k kB l2 by (simp add: nth_rotate i_def)
    show "take (sz + n) (rotate pos b2) ! k = (take sz (rotate pos b) @ take n d) ! k"
    proof (cases "k < sz")
      case True
      then have "(take sz (rotate pos b) @ take n d) ! k = b ! i"
        using B kB sz by (simp add: nth_append nth_rotate i_def)
      moreover have "\<not> (p \<le> i \<and> i < p + sub)" "\<not> (sub < n \<and> i < n - sub)"
        using ring_index_old [OF pos sz True pw iw sub] by blast+
      then have "b2 ! i = b ! i"
        using i by (auto simp: n1 n2)
      ultimately show ?thesis using lhs by simp
    next
      case False
      then have ks: "sz \<le> k" by simp
      have "(take sz (rotate pos b) @ take n d) ! k = d ! (k - sz)"
        using False B k sz d by (simp add: nth_append)
      moreover have "b2 ! i = d ! (k - sz)"
      proof (cases "k - sz < sub")
        case True
        from ring_index_new(1) [OF pos sz ks k pw iw sub True]
        show ?thesis using True i by (auto simp: n1 n2)
      next
        case nsub: False
        from ring_index_new(2) [OF pos sz ks k pw iw sub nsub]
        show ?thesis using nsub ks i by (auto simp: n1 n2)
      qed
      ultimately show ?thesis using lhs by simp
    qed
  qed
qed

lemma fd_upd_cong: "f (fd_at s i) = g (fd_at s i) \<Longrightarrow> fd_upd i f s = fd_upd i g s"
  by (simp add: fd_upd_def fd_at_def)

lemma ring_get_ok:
  assumes g: "grants s (endpt, grant) = Some region" and n: "n \<le> length region"
    and B: "length (buf f) = UDS_BUF c" and p: "pos_fd f < UDS_BUF c" and nB: "n \<le> UDS_BUF c"
  shows "ring_get c f endpt grant n s =
           (None, s\<lparr>grants := (grants s)((endpt, grant) \<mapsto>
                       take n (rotate (pos_fd f) (buf f)) @ drop n region)\<rparr>)"
proof -
  define sub where "sub = (if UDS_BUF c - pos_fd f > n then n else UDS_BUF c - pos_fd f)"
  define d1 where "d1 = take sub (drop (pos_fd f) (buf f))"
  define d2 where "d2 = take (n - sub) (buf f)"
  have sub: "sub = min (length (buf f) - pos_fd f) n"
    by (auto simp: sub_def B min_def)
  have l1: "length d1 = sub" using B p by (auto simp: d1_def sub_def)
  have l2: "length d2 = n - sub" using B nB by (auto simp: d2_def)
  have seg: "d1 @ d2 = take n (rotate (pos_fd f) (buf f))"
    unfolding d1_def d2_def sub using p nB B by (intro two_segments) simp_all
  have s_le: "sub \<le> n" by (simp add: sub_def)
  define s1 where "s1 = s\<lparr>grants := (grants s)((endpt, grant) \<mapsto> d1 @ drop sub region)\<rparr>"
  have c1: "sys_safecopyto endpt grant 0 d1 s = Inr s1"
    using g n l1 s_le by (simp add: sys_safecopyto_def s1_def)
  show ?thesis
  proof (cases "sub < n")
    case True
    have "sys_safecopyto endpt grant sub d2 s1 =
            Inr (s\<lparr>grants := (grants s)((endpt, grant) \<mapsto> (d1 @ d2) @ drop n region)\<rparr>)"
      using True n l1 l2 by (simp add: sys_safecopyto_def s1_def)
    then show ?thesis
      using True c1 unfolding ring_get_def Let_def sub_def [symmetric] d1_def [symmetric]
        d2_def [symmetric] seg [symmetric]
      by simp
  next
    case False
    then have "sub = n" using s_le by simp
    then have "d2 = []" by (simp add: d2_def)
    then have "d1 = take n (rotate (pos_fd f) (buf f))" using seg by simp
    then show ?thesis
      using False c1 \<open>sub = n\<close> unfolding ring_get_def Let_def sub_def [symmetric] d1_def [symmetric]
      by (simp add: s1_def)
  qed
qed

lemma ring_put_ok:
  assumes g: "grants s (endpt, grant) = Some region" and n: "n \<le> length region"
    and B: "length (buf (fd_at s pr)) = UDS_BUF c" and p: "pos_fd (fd_at s pr) < UDS_BUF c"
    and sz: "size_fd (fd_at s pr) + n \<le> UDS_BUF c"
  shows "\<exists>b'. ring_put c pr endpt grant n s = (None, fd_upd pr (\<lambda>f. f\<lparr>buf := b'\<rparr>) s)
           \<and> length b' = UDS_BUF c
           \<and> take (size_fd (fd_at s pr) + n) (rotate (pos_fd (fd_at s pr)) b')
               = take (size_fd (fd_at s pr)) (rotate (pos_fd (fd_at s pr)) (buf (fd_at s pr)))
                 @ take n region"
proof -
  define b where "b = buf (fd_at s pr)"
  define q where "q = (pos_fd (fd_at s pr) + size_fd (fd_at s pr)) mod UDS_BUF c"
  define sub where "sub = (if UDS_BUF c - q > n then n else UDS_BUF c - q)"
  define b1 where "b1 = take q b @ take sub region @ drop (q + length (take sub region)) b"
  define b2 where "b2 = (if sub < n
                  then take 0 b1 @ take (n - sub) (drop sub region)
                       @ drop (0 + length (take (n - sub) (drop sub region))) b1
                  else b1)"
  note rs = ring_store [OF B [folded b_def] p sz n, folded q_def, folded sub_def,
      folded b1_def, folded b2_def]
  have s_le: "sub \<le> n" by (simp add: sub_def)
  have c1: "sys_safecopyfrom endpt grant 0 sub s = Inr (take sub region)"
    using g n s_le by (simp add: sys_safecopyfrom_def)
  define s1 where "s1 = fd_upd pr (\<lambda>f. f\<lparr>buf := b1\<rparr>) s"
  have s1: "fd_upd pr (\<lambda>f. f\<lparr>buf := buf_store q (take sub region) (buf f)\<rparr>) s = s1"
    unfolding s1_def by (rule fd_upd_cong) (simp add: buf_store_def b1_def b_def)
  have r: "ring_put c pr endpt grant n s = (None, fd_upd pr (\<lambda>f. f\<lparr>buf := b2\<rparr>) s)"
  proof (cases "sub < n")
    case True
    have c2: "sys_safecopyfrom endpt grant sub (n - sub) s1 = Inr (take (n - sub) (drop sub region))"
      using g n s_le by (simp add: sys_safecopyfrom_def s1_def)
    have "fd_upd pr (\<lambda>f. f\<lparr>buf := buf_store 0 (take (n - sub) (drop sub region)) (buf f)\<rparr>) s1
            = fd_upd pr (\<lambda>f. f\<lparr>buf := b2\<rparr>) s"
      using True unfolding s1_def by (simp add: buf_store_def b2_def)
    then show ?thesis
      using True c1 c2 s1
      unfolding ring_put_def Let_def q_def [symmetric] sub_def [symmetric]
      by simp
  next
    case False
    then have "b2 = b1" by (simp add: b2_def)
    then show ?thesis
      using False c1 s1
      unfolding ring_put_def Let_def q_def [symmetric] sub_def [symmetric]
      by (simp add: s1_def)
  qed
  show ?thesis
    using r rs by (intro exI [of _ b2]) (simp add: b_def)
qed

lemma connectedD:
  assumes "connected c t a b s"
  shows "0 \<le> a" "a < int (NR_FDS c)" "0 \<le> b" "b < int (NR_FDS c)" "nat a \<noteq> nat b"
    "a \<noteq> -1" "b \<noteq> -1" "in_table c a" "in_table c b"
    "state (fd_at s a) = UDS_INUSE" "state (fd_at s b) = UDS_INUSE"
    "type (fd_at s a) = t" "type (fd_at s b) = t" "peer (fd_at s a) = b" "peer (fd_at s b) = a"
  using assms by (auto simp: connected_def in_table_def)

lemma fd_at_select_reader:
  "fd_at (select_reader b s) j =
     (if nat j = nat b \<and> CDEV_OP_RD \<in> sel_ops (fd_at s b) \<and> size_fd (fd_at s b) > 0
      then (fd_at s j)\<lparr>sel_ops := sel_ops (fd_at s j) - {CDEV_OP_RD}\<rparr> else fd_at s j)"
  "grants (select_reader b s) = grants s"
  by (auto simp: select_reader_def)

lemma fd_at_select_writer:
  "fd_at (select_writer c m a s) j =
     (if nat j = nat a \<and> a \<noteq> -1 \<and> CDEV_OP_WR \<in> sel_ops (fd_at s a)
          \<and> size_fd (fd_at s m) < UDS_BUF c
      then (fd_at s j)\<lparr>sel_ops := sel_ops (fd_at s j) - {CDEV_OP_WR}\<rparr> else fd_at s j)"
  "grants (select_writer c m a s) = grants s"
  by (auto simp: select_writer_def)

lemma uds_write_connected:
  assumes con: "connected c t a b s" and t: "t = SOCK_STREAM \<or> t = SOCK_SEQPACKET"
    and m: "UDS_W \<in> mode (fd_at s a)" "UDS_R \<in> mode (fd_at s b)"
    and idle: "suspended (fd_at s b) \<noteq> UDS_SUSPENDED_READ"
    and B: "length (buf (fd_at s b)) = UDS_BUF c" and p: "pos_fd (fd_at s b) < UDS_BUF c"
    and sz: "size_fd (fd_at s b) + n \<le> UDS_BUF c"
    and seq: "t = SOCK_SEQPACKET \<longrightarrow> size_fd (fd_at s b) = 0"
    and n: "0 < n" and g: "grants s (endpt, grant) = Some region" "n \<le> length region"
  shows "\<exists>s' b' so. uds_write fuel c a endpt grant n nonblock rid s = Inr (Ret n, s')
           \<and> grants s' = grants s
           \<and> (\<forall>j. nat j \<noteq> nat b \<longrightarrow> fd_at s' j = fd_at s j)
           \<and> fd_at s' b = (fd_at s b)\<lparr>buf := b', size_fd := size_fd (fd_at s b) + n,
                                       sel_ops := so\<rparr>
           \<and> length b' = UDS_BUF c
           \<and> take (size_fd (fd_at s b) + n) (rotate (pos_fd (fd_at s b)) b')
               = take (size_fd (fd_at s b)) (rotate (pos_fd (fd_at s b)) (buf (fd_at s b)))
                 @ take n region"
proof -
  note c = connectedD [OF con]
  from ring_put_ok [OF g B p sz] obtain b' where
    put: "ring_put c b endpt grant n s = (None, fd_upd b (\<lambda>f. f\<lparr>buf := b'\<rparr>) s)"
    and b': "length b' = UDS_BUF c"
      "take (size_fd (fd_at s b) + n) (rotate (pos_fd (fd_at s b)) b')
               = take (size_fd (fd_at s b)) (rotate (pos_fd (fd_at s b)) (buf (fd_at s b)))
                 @ take n region"
    by blast
  define s' where "s' = select_reader b (advance_head a b n (fd_upd b (\<lambda>f. f\<lparr>buf := b'\<rparr>) s))"
  have co: "conn_oriented (fd_at s a)" using t c(12) by (auto simp: conn_oriented_def)
  have wd: "write_dest c a s = Some b" using co c by (simp add: write_dest_def)
  have pre: "n \<noteq> 0" "UDS_W \<in> mode (fd_at s a)"
    "\<not> (n > UDS_BUF c \<and> type (fd_at s a) \<noteq> SOCK_STREAM)"
    using n m sz by auto
  have nd: "type (fd_at s a) \<noteq> SOCK_DGRAM" using t c(12) by auto
  have nb: "size_fd (fd_at s b) \<noteq> UDS_BUF c"
    "\<not> (type (fd_at s a) = SOCK_SEQPACKET \<and> size_fd (fd_at s b) > 0)"
    using sz n seq c(12) by auto
  have ah: "advance_head a b n (fd_upd b (\<lambda>f. f\<lparr>buf := b'\<rparr>) s)
              = fd_upd b (\<lambda>f. f\<lparr>buf := b', size_fd := size_fd f + n\<rparr>) s"
    using nd c(5) by (simp add: advance_head_def Let_def)
  have fit: "\<not> n > UDS_BUF c - size_fd (fd_at s b)" using sz by simp
  have "uds_perform_write fuel c a endpt grant n False s = Inr (Ret n, s')"
    unfolding uds_perform_write_def perform_write_body_dest [OF pre]
    using wd co c(9,15,6) m idle nd nb fit put
    by (simp add: Let_def s'_def ah)
  then have w: "uds_write fuel c a endpt grant n nonblock rid s = Inr (Ret n, s')"
    using c by (simp add: uds_write_def)
  have f: "fd_at s' j = fd_at s j" if "nat j \<noteq> nat b" for j
    using that by (simp add: s'_def ah fd_at_select_reader)
  have fb: "\<exists>so. fd_at s' b = (fd_at s b)\<lparr>buf := b', size_fd := size_fd (fd_at s b) + n,
                                       sel_ops := so\<rparr>"
    by (cases "CDEV_OP_RD \<in> sel_ops (fd_at s b)")
       (auto simp: s'_def ah fd_at_select_reader intro: exI [of _ "sel_ops (fd_at s b)"])
  have gr: "grants s' = grants s"
    by (simp add: s'_def ah fd_at_select_reader)
  show ?thesis
    using w f fb gr b' by blast
qed

lemma ring_data_advance:
  assumes "length b = B" "pos < B" "sz \<le> B" "r \<le> sz"
  shows "take (sz - r) (rotate (if sz = r then 0 else (pos + r) mod B) b)
           = drop r (take sz (rotate pos b))"
proof (cases "sz = r")
  case True
  then show ?thesis by simp
next
  case False
  then have r: "r < B" using assms by simp
  have "rotate ((pos + r) mod B) b = rotate (pos + r) b"
    using assms(1) rotate_conv_mod [of "pos + r" b] by simp
  also have "\<dots> = rotate r (rotate pos b)"
    by (simp add: rotate_rotate add.commute)
  also have "\<dots> = drop r (rotate pos b) @ take r (rotate pos b)"
    using r assms(1) by (simp add: rotate_drop_take)
  finally have "take (sz - r) (rotate ((pos + r) mod B) b) = take (sz - r) (drop r (rotate pos b))"
    using assms by simp
  also have "\<dots> = drop r (take sz (rotate pos b))"
    using assms(4) by (simp add: take_drop)
  finally show ?thesis using False by simp
qed

lemma advance_tail_eq:
  assumes "r \<le> size_fd (fd_at s b)"
  shows "advance_tail c b r s =
           fd_upd b (\<lambda>f. f\<lparr>pos_fd := (if size_fd (fd_at s b) = r then 0
                                        else (pos_fd (fd_at s b) + r) mod UDS_BUF c),
                           size_fd := size_fd (fd_at s b) - r\<rparr>) s"
  using assms
  by (cases "size_fd (fd_at s b) = r")
     (auto simp: advance_tail_def Let_def intro!: fd_upd_cong)

lemma uds_read_connected:
  assumes con: "connected c t b a s"
    and m: "UDS_R \<in> mode (fd_at s b)"
    and idle: "suspended (fd_at s a) \<noteq> UDS_SUSPENDED_WRITE"
    and B: "length (buf (fd_at s b)) = UDS_BUF c" and p: "pos_fd (fd_at s b) < UDS_BUF c"
    and sz: "size_fd (fd_at s b) \<le> UDS_BUF c"
    and r: "0 < r" "r \<le> size_fd (fd_at s b)"
    and g: "grants s (endpt, grant) = Some region" "r \<le> length region"
  shows "\<exists>s' so. uds_read fuel c b endpt grant r nonblock rid s = Inr (Ret r, s')
           \<and> grants s' = (grants s)((endpt, grant) \<mapsto>
                 take r (rotate (pos_fd (fd_at s b)) (buf (fd_at s b))) @ drop r region)
           \<and> (\<forall>j. nat j \<noteq> nat b \<and> nat j \<noteq> nat a \<longrightarrow> fd_at s' j = fd_at s j)
           \<and> fd_at s' a = (fd_at s a)\<lparr>sel_ops := so\<rparr>
           \<and> fd_at s' b = (fd_at s b)\<lparr>pos_fd := (if size_fd (fd_at s b) = r then 0
                                        else (pos_fd (fd_at s b) + r) mod UDS_BUF c),
                                      size_fd := size_fd (fd_at s b) - r\<rparr>"
proof -
  note c = connectedD [OF con]
  define s2 where "s2 = s\<lparr>grants := (grants s)((endpt, grant) \<mapsto>
                 take r (rotate (pos_fd (fd_at s b)) (buf (fd_at s b))) @ drop r region)\<rparr>"
  have rB: "r \<le> UDS_BUF c" using r sz by simp
  have get: "ring_get c (fd_at s b) endpt grant r s = (None, s2)"
    unfolding s2_def by (rule ring_get_ok [OF g B p rB])
  have f2: "fd_at s2 j = fd_at s j" for j by (simp add: s2_def fd_at_def)
  define s4 where "s4 = advance_tail c b r s2"
  have s4: "s4 = fd_upd b (\<lambda>f. f\<lparr>pos_fd := (if size_fd (fd_at s b) = r then 0
                                        else (pos_fd (fd_at s b) + r) mod UDS_BUF c),
                           size_fd := size_fd (fd_at s b) - r\<rparr>) s2"
    unfolding s4_def using r by (simp add: advance_tail_eq f2)
  define s' where "s' = select_writer c b a s4"
  have pre: "r \<noteq> 0" "UDS_R \<in> mode (fd_at s b)" "size_fd (fd_at s b) \<noteq> 0" "\<not> False"
    using r m by auto
  have n: "r = (if r > size_fd (fd_at s b) then size_fd (fd_at s b) else r)"
    using r by simp
  have sa: "suspended (fd_at s4 a) \<noteq> UDS_SUSPENDED_WRITE"
    using idle c(5) by (simp add: s4 f2)
  have "uds_perform_read fuel c b endpt grant r False s = Inr (Ret r, s')"
    unfolding uds_perform_read_def
      perform_read_body_data [OF pre n c(14) [symmetric]]
    using get c sa by (simp add: s4_def [symmetric] s'_def)
  then have rd: "uds_read fuel c b endpt grant r nonblock rid s = Inr (Ret r, s')"
    using c by (simp add: uds_read_def)
  have gr: "grants s' = (grants s)((endpt, grant) \<mapsto>
                 take r (rotate (pos_fd (fd_at s b)) (buf (fd_at s b))) @ drop r region)"
    by (simp add: s'_def fd_at_select_writer s4 s2_def)
  have fo: "fd_at s' j = fd_at s j" if "nat j \<noteq> nat b \<and> nat j \<noteq> nat a" for j
    using that by (simp add: s'_def fd_at_select_writer s4 f2)
  have fa: "\<exists>so. fd_at s' a = (fd_at s a)\<lparr>sel_ops := so\<rparr>"
    using c(5)
    by (cases "CDEV_OP_WR \<in> sel_ops (fd_at s a)")
       (auto simp: s'_def fd_at_select_writer s4 f2 intro: exI [of _ "sel_ops (fd_at s a)"])
  have fb: "fd_at s' b = (fd_at s b)\<lparr>pos_fd := (if size_fd (fd_at s b) = r then 0
                                        else (pos_fd (fd_at s b) + r) mod UDS_BUF c),
                                      size_fd := size_fd (fd_at s b) - r\<rparr>"
    using c(5) by (simp add: s'_def fd_at_select_writer s4 f2)
  show ?thesis
    using rd gr fo fa fb by blast
qed

lemma connected_sym: "connected c t a b s \<Longrightarrow> connected c t b a s"
  by (auto simp: connected_def)

lemma connected_cong:
  assumes "connected c t a b s"
    and "state (fd_at s' a) = state (fd_at s a)" "state (fd_at s' b) = state (fd_at s b)"
    and "type (fd_at s' a) = type (fd_at s a)" "type (fd_at s' b) = type (fd_at s b)"
    and "peer (fd_at s' a) = peer (fd_at s a)" "peer (fd_at s' b) = peer (fd_at s b)"
  shows "connected c t a b s'"
  using assms by (simp add: connected_def)

subsection \<open>Sequences of writes and reads on a stream pair\<close>

lemma req_size_simp [simp]: "req_size (endpt, grant, sz, rid) = sz"
  by (simp add: req_size_def)

lemma write_all_stream:
  assumes "stream_ready c a b s" "grants_fit s ws"
    and "size_fd (fd_at s b) + sum_list (map req_size ws) \<le> UDS_BUF c"
  shows "\<exists>s1. write_all n c a ws s = Inr (map (\<lambda>q. Ret (req_size q)) ws, s1)
           \<and> stream_ready c a b s1 \<and> grants s1 = grants s
           \<and> pos_fd (fd_at s1 b) = pos_fd (fd_at s b)
           \<and> size_fd (fd_at s1 b) = size_fd (fd_at s b) + sum_list (map req_size ws)
           \<and> ring_data (fd_at s1 b) = ring_data (fd_at s b) @ concat (map (sent s) ws)"
  using assms
proof (induction ws arbitrary: s)
  case Nil
  then show ?case by simp
next
  case (Cons q ws)
  obtain endpt grant sz rid where q: "q = (endpt, grant, sz, rid)" by (cases q) auto
  from Cons.prems(2) q obtain region where g: "grants s (endpt, grant) = Some region"
    "sz \<le> length region" and fit: "grants_fit s ws"
    by (auto simp: grants_fit_def split: option.splits)
  note sr = Cons.prems(1) [unfolded stream_ready_def]
  have sz: "size_fd (fd_at s b) + sz \<le> UDS_BUF c"
    using Cons.prems(3) q by simp
  have "\<exists>s'. uds_write n c a endpt grant sz False rid s = Inr (Ret sz, s')
          \<and> stream_ready c a b s' \<and> grants s' = grants s
          \<and> pos_fd (fd_at s' b) = pos_fd (fd_at s b)
          \<and> size_fd (fd_at s' b) = size_fd (fd_at s b) + sz
          \<and> ring_data (fd_at s' b) = ring_data (fd_at s b) @ take sz region"
  proof (cases "sz = 0")
    case True
    have "0 \<le> a" "a < int (NR_FDS c)" "state (fd_at s a) = UDS_INUSE"
      using sr by (auto dest: connectedD)
    then have "uds_write n c a endpt grant sz False rid s = Inr (Ret 0, s)"
      using True by (simp add: uds_write_def uds_perform_write_def perform_write_body_def)
    then show ?thesis using True Cons.prems(1) by simp
  next
    case False
    then have "0 < sz" by simp
    from sr uds_write_connected [of c SOCK_STREAM a b s sz endpt grant region n False rid]
      sz this g
    obtain s' b' so where w: "uds_write n c a endpt grant sz False rid s = Inr (Ret sz, s')"
      and g1: "grants s' = grants s"
      and o1: "\<And>j. nat j \<noteq> nat b \<Longrightarrow> fd_at s' j = fd_at s j"
      and b1: "fd_at s' b = (fd_at s b)\<lparr>buf := b', size_fd := size_fd (fd_at s b) + sz,
                                       sel_ops := so\<rparr>"
      and lb: "length b' = UDS_BUF c"
      and d1: "take (size_fd (fd_at s b) + sz) (rotate (pos_fd (fd_at s b)) b')
               = take (size_fd (fd_at s b)) (rotate (pos_fd (fd_at s b)) (buf (fd_at s b)))
                 @ take sz region"
      by auto
    have "nat a \<noteq> nat b" using sr by (auto dest: connectedD)
    then have a1: "fd_at s' a = fd_at s a" using o1 by simp
    have "stream_ready c a b s'"
      using sr sz \<open>nat a \<noteq> nat b\<close>
      by (simp add: stream_ready_def connected_def a1 b1 lb)
    moreover have "ring_data (fd_at s' b) = ring_data (fd_at s b) @ take sz region"
      by (simp add: ring_data_def b1 d1)
    ultimately show ?thesis using w g1 by (simp add: b1)
  qed
  then obtain s' where w: "uds_write n c a endpt grant sz False rid s = Inr (Ret sz, s')"
    and s': "stream_ready c a b s'" "grants s' = grants s"
      "pos_fd (fd_at s' b) = pos_fd (fd_at s b)"
      "size_fd (fd_at s' b) = size_fd (fd_at s b) + sz"
      "ring_data (fd_at s' b) = ring_data (fd_at s b) @ take sz region"
    by blast
  have fit': "grants_fit s' ws" using fit s'(2) by (simp add: grants_fit_def)
  have "size_fd (fd_at s' b) + sum_list (map req_size ws) \<le> UDS_BUF c"
    using Cons.prems(3) s'(4) q by simp
  from Cons.IH [OF s'(1) fit' this] obtain s1 where
    ih: "write_all n c a ws s' = Inr (map (\<lambda>q. Ret (req_size q)) ws, s1)"
      "stream_ready c a b s1" "grants s1 = grants s'"
      "pos_fd (fd_at s1 b) = pos_fd (fd_at s' b)"
      "size_fd (fd_at s1 b) = size_fd (fd_at s' b) + sum_list (map req_size ws)"
      "ring_data (fd_at s1 b) = ring_data (fd_at s' b) @ concat (map (sent s') ws)"
    by blast
  have "sent s' = sent s" using s'(2) by (simp add: sent_def fun_eq_iff)
  moreover have "sent s q = take sz region" using q g by (simp add: sent_def)
  ultimately show ?case
    using w ih s' q by simp
qed

lemma grants_fit_upd:
  assumes "grants_fit s qs" "grants s k = Some region" "length region' = length region"
    "grants s' = (grants s)(k \<mapsto> region')"
  shows "grants_fit s' qs"
  unfolding grants_fit_def
proof
  fix q assume "q \<in> set qs"
  with assms(1) have *: "case q of (endpt, grant, sz, rid) \<Rightarrow>
        (case grants s (endpt, grant) of None \<Rightarrow> False | Some region \<Rightarrow> sz \<le> length region)"
    by (auto simp: grants_fit_def)
  obtain endpt grant sz rid where q: "q = (endpt, grant, sz, rid)" by (cases q) auto
  show "case q of (endpt, grant, sz, rid) \<Rightarrow>
        (case grants s' (endpt, grant) of None \<Rightarrow> False | Some region \<Rightarrow> sz \<le> length region)"
    using * assms(2,3) by (cases "k = (endpt, grant)") (auto simp: q assms(4) split: option.splits)
qed

lemma read_all_stream:
  assumes "stream_ready c a b s" "grants_fit s rs"
    and "sum_list (map req_size rs) \<le> size_fd (fd_at s b)"
  shows "\<exists>out s2. read_all n c b rs s = Inr (out, s2)
           \<and> map fst out = map (\<lambda>q. Ret (req_size q)) rs
           \<and> concat (map snd out) = take (sum_list (map req_size rs)) (ring_data (fd_at s b))
           \<and> stream_ready c a b s2
           \<and> size_fd (fd_at s2 b) = size_fd (fd_at s b) - sum_list (map req_size rs)
           \<and> ring_data (fd_at s2 b) = drop (sum_list (map req_size rs)) (ring_data (fd_at s b))"
  using assms
proof (induction rs arbitrary: s)
  case Nil
  then show ?case by simp
next
  case (Cons q rs)
  obtain endpt grant sz rid where q: "q = (endpt, grant, sz, rid)" by (cases q) auto
  from Cons.prems(2) q obtain region where g: "grants s (endpt, grant) = Some region"
    "sz \<le> length region" and fit: "grants_fit s rs"
    by (auto simp: grants_fit_def split: option.splits)
  note sr = Cons.prems(1) [unfolded stream_ready_def]
  have sz: "sz \<le> size_fd (fd_at s b)"
    and rest: "sum_list (map req_size rs) \<le> size_fd (fd_at s b) - sz"
    using Cons.prems(3) q by simp_all
  have "\<exists>s'. uds_read n c b endpt grant sz False rid s = Inr (Ret sz, s')
          \<and> stream_ready c a b s' \<and> grants_fit s' rs
          \<and> received s' q (Ret sz) = take sz (ring_data (fd_at s b))
          \<and> size_fd (fd_at s' b) = size_fd (fd_at s b) - sz
          \<and> ring_data (fd_at s' b) = drop sz (ring_data (fd_at s b))"
  proof (cases "sz = 0")
    case True
    have "0 \<le> b" "b < int (NR_FDS c)" "state (fd_at s b) = UDS_INUSE"
      using sr by (auto dest: connectedD)
    then have "uds_read n c b endpt grant sz False rid s = Inr (Ret 0, s)"
      using True by (simp add: uds_read_def uds_perform_read_def perform_read_body_def)
    then show ?thesis using True Cons.prems(1) fit g by (simp add: received_def q)
  next
    case False
    then have "0 < sz" by simp
    have con: "connected c SOCK_STREAM b a s" using sr by (auto intro: connected_sym)
    from sr uds_read_connected [OF con _ _ _ _ _ \<open>0 < sz\<close> sz g, of n False rid]
    obtain s' so where rd: "uds_read n c b endpt grant sz False rid s = Inr (Ret sz, s')"
      and g1: "grants s' = (grants s)((endpt, grant) \<mapsto>
                 take sz (rotate (pos_fd (fd_at s b)) (buf (fd_at s b))) @ drop sz region)"
      and a1: "fd_at s' a = (fd_at s a)\<lparr>sel_ops := so\<rparr>"
      and b1: "fd_at s' b = (fd_at s b)\<lparr>pos_fd := (if size_fd (fd_at s b) = sz then 0
                                        else (pos_fd (fd_at s b) + sz) mod UDS_BUF c),
                                      size_fd := size_fd (fd_at s b) - sz\<rparr>"
      by auto
    have B: "0 < UDS_BUF c" using sr by simp
    have len: "length (take sz (rotate (pos_fd (fd_at s b)) (buf (fd_at s b))) @ drop sz region)
                = length region"
      using sr sz g(2) by simp
    have "stream_ready c a b s'"
      using sr B by (auto simp: stream_ready_def connected_def a1 b1)
    moreover have "grants_fit s' rs"
      by (rule grants_fit_upd [OF fit g(1) len g1])
    moreover have "received s' q (Ret sz) = take sz (ring_data (fd_at s b))"
      using sr sz by (simp add: received_def q g1 ring_data_def min_def)
    moreover have "ring_data (fd_at s' b) = drop sz (ring_data (fd_at s b))"
      using sr sz by (simp add: ring_data_def b1 ring_data_advance)
    ultimately show ?thesis using rd by (simp add: b1)
  qed
  then obtain s' where rd: "uds_read n c b endpt grant sz False rid s = Inr (Ret sz, s')"
    and s': "stream_ready c a b s'" "grants_fit s' rs"
      "received s' q (Ret sz) = take sz (ring_data (fd_at s b))"
      "size_fd (fd_at s' b) = size_fd (fd_at s b) - sz"
      "ring_data (fd_at s' b) = drop sz (ring_data (fd_at s b))"
    by blast
  have "sum_list (map req_size rs) \<le> size_fd (fd_at s' b)"
    using rest s'(4) by simp
  from Cons.IH [OF s'(1,2) this] obtain out s2 where
    ih: "read_all n c b rs s' = Inr (out, s2)"
      "map fst out = map (\<lambda>q. Ret (req_size q)) rs"
      "concat (map snd out) = take (sum_list (map req_size rs)) (ring_data (fd_at s' b))"
      "stream_ready c a b s2"
      "size_fd (fd_at s2 b) = size_fd (fd_at s' b) - sum_list (map req_size rs)"
      "ring_data (fd_at s2 b) = drop (sum_list (map req_size rs)) (ring_data (fd_at s' b))"
    by blast
  have len: "length (ring_data (fd_at s b)) = size_fd (fd_at s b)"
    using sr by (simp add: ring_data_def)
  have "take (sz + sum_list (map req_size rs)) (ring_data (fd_at s b))
          = take sz (ring_data (fd_at s b))
            @ take (sum_list (map req_size rs)) (drop sz (ring_data (fd_at s b)))"
    by (simp add: take_add)
  then show ?case
    using rd ih s' q by (simp add: add.commute)
qed

subsection \<open>The slots whose ring buffer a write changes\<close>

lemma frame_refl [simp]: "frame d s s"
  by (simp add: frame_def)

lemma frame_trans: "frame d s s1 \<Longrightarrow> frame d s1 s2 \<Longrightarrow> frame d s s2"
  by (simp add: frame_def)

lemma frame_table: "uds_fd_table s' = uds_fd_table s \<Longrightarrow> frame d s s'"
  by (simp add: frame_def)

lemma frame_upd_other:
  assumes "type (f (fd_at s k)) = type (fd_at s k)" "peer (f (fd_at s k)) = peer (fd_at s k)"
    "addr (f (fd_at s k)) = addr (fd_at s k)" "target (f (fd_at s k)) = target (fd_at s k)"
    "buf (f (fd_at s k)) = buf (fd_at s k)" "pos_fd (f (fd_at s k)) = pos_fd (fd_at s k)"
    "size_fd (f (fd_at s k)) = size_fd (fd_at s k)"
  shows "frame d s (fd_upd k f s)"
  using assms by (simp add: frame_def fd_upd_def fd_at_def)

lemma frame_upd_dest:
  assumes "0 \<le> d"
    "type (f (fd_at s d)) = type (fd_at s d)" "peer (f (fd_at s d)) = peer (fd_at s d)"
    "addr (f (fd_at s d)) = addr (fd_at s d)" "target (f (fd_at s d)) = target (fd_at s d)"
  shows "frame d s (fd_upd d f s)"
  using assms by (auto simp add: frame_def fd_upd_def fd_at_def)

lemma frame_fd_at:
  assumes "frame d s s'"
  shows "type (fd_at s' j) = type (fd_at s j)" "peer (fd_at s' j) = peer (fd_at s j)"
    "addr (fd_at s' j) = addr (fd_at s j)" "target (fd_at s' j) = target (fd_at s j)"
  using assms by (simp_all add: frame_def fd_at_def)

lemma frame_write_dest:
  assumes "frame d s s'"
  shows "write_dest c h s' = write_dest c h s"
proof -
  have "locate_peer c h s' = locate_peer c h s"
    using assms by (simp add: locate_peer_def frame_def fd_at_def)
  then show ?thesis
    by (simp add: write_dest_def conn_oriented_def frame_fd_at [OF assms])
qed

lemma frame_reply [simp]:
  "frame d s (chardriver_reply_select e m ops s)" "frame d s (chardriver_reply_task e' i r s)"
  by (simp_all add: frame_def chardriver_reply_select_def chardriver_reply_task_def)

lemma frame_select_writer: "frame d s (select_writer c minor pr s)"
  unfolding select_writer_def
  by (auto intro!: frame_trans [OF frame_reply(1) frame_upd_other])

lemma frame_select_reader: "frame d s (select_reader pr s)"
  unfolding select_reader_def
  by (auto intro!: frame_trans [OF frame_reply(1) frame_upd_other])

lemma frame_advance_tail: "0 \<le> d \<Longrightarrow> frame d s (advance_tail c d n s)"
  unfolding advance_tail_def Let_def
  by (auto intro!: frame_upd_dest frame_trans [OF frame_upd_dest frame_upd_dest])

lemma frame_advance_head: "0 \<le> d \<Longrightarrow> frame d s (advance_head h d n s)"
  unfolding advance_head_def Let_def
  by (auto intro!: frame_upd_dest frame_trans [OF frame_upd_dest frame_upd_dest])

lemma frame_ring_put:
  assumes "ring_put c d endpt grant n s = (r, s')" "0 \<le> d"
  shows "frame d s s'"
proof -
  from ring_put_cases [OF assms(1)] obtain b where "s' = fd_upd d (\<lambda>f. f\<lparr>buf := b f\<rparr>) s" ..
  then show ?thesis using assms(2) by (auto intro!: frame_upd_dest)
qed

lemma locate_peer_nonneg: "locate_peer c h s = Some d \<Longrightarrow> 0 \<le> d"
  by (auto simp: locate_peer_def)

text \<open>The bodies of read and write, over a function \<open>u\<close> for the wake-ups that keeps the frame.\<close>

lemma perform_read_body_frame:
  assumes r: "perform_read_body u c d endpt grant sz pretend s = Inr (rc, s')"
    and d: "0 \<le> d" "peer (fd_at s d) = -1 \<or> peer (fd_at s d) = h"
    and u: "\<And>s1 s2. \<lbrakk>frame d s s1; suspended (fd_at s1 h) = UDS_SUSPENDED_WRITE;
              u h s1 = Inr s2\<rbrakk> \<Longrightarrow> frame d s1 s2"
  shows "frame d s s'"
  using r
proof (cases rule: perform_read_bodyE)
  case same
  then show ?thesis by simp
next
  case reset
  then show ?thesis by (auto intro!: frame_upd_other)
next
  case (copy_failed e n)
  then show ?thesis by (auto intro: frame_table ring_get_table)
next
  case (data n s2 s5)
  have f2: "frame d s s2" using data(7) by (auto intro: frame_table ring_get_table)
  have f4: "frame d s (advance_tail c d n s2)"
    by (rule frame_trans [OF f2 frame_advance_tail [OF d(1)]])
  have "frame d (advance_tail c d n s2) s5"
  proof (cases "peer (fd_at s d) \<noteq> -1
             \<and> suspended (fd_at (advance_tail c d n s2) (peer (fd_at s d))) = UDS_SUSPENDED_WRITE")
    case True
    then have p: "peer (fd_at s d) = h" using d(2) by simp
    from True data(9) have "u h (advance_tail c d n s2) = Inr s5" by (simp add: p)
    with True show ?thesis by (intro u [OF f4]) (simp_all add: p)
  next
    case False
    with data(9) show ?thesis by (auto split: if_splits)
  qed
  then have "frame d s s5" by (rule frame_trans [OF f4])
  then show ?thesis unfolding data(10) by (rule frame_trans) (rule frame_select_writer)
qed

lemma perform_write_body_frame:
  assumes w: "perform_write_body u c h endpt grant sz pretend s = Inr (rc, s')"
    and d: "write_dest c h s = Some d"
    and u: "\<And>s1 s2. \<lbrakk>0 \<le> d; frame d s s1; suspended (fd_at s1 d) = UDS_SUSPENDED_READ;
              u d s1 = Inr s2\<rbrakk> \<Longrightarrow> frame d s1 s2"
  shows "frame d s s'"
  using w
proof (cases rule: perform_write_bodyE)
  case same
  then show ?thesis by simp
next
  case reset
  then show ?thesis by (auto intro!: frame_upd_other)
next
  case (copy_failed pr n e)
  then have "pr = d" "0 \<le> d" using d
    by (auto simp: write_dest_def in_table_def dest: locate_peer_nonneg split: if_splits)
  with copy_failed show ?thesis by (auto intro: frame_ring_put)
next
  case (data pr n s2 s5)
  then have pr: "pr = d" and d0: "0 \<le> d" using d
    by (auto simp: write_dest_def in_table_def dest: locate_peer_nonneg split: if_splits)
  have f2: "frame d s s2" using data(10) d0 unfolding pr by (rule frame_ring_put)
  have f4: "frame d s (advance_head h d n s2)"
    by (rule frame_trans [OF f2 frame_advance_head [OF d0]])
  have "frame d (advance_head h d n s2) s5"
  proof (cases "suspended (fd_at (advance_head h d n s2) d) = UDS_SUSPENDED_READ")
    case True
    with data(11) have "u d (advance_head h d n s2) = Inr s5" by (simp add: pr)
    with True show ?thesis by (intro u [OF d0 f4])
  next
    case False
    with data(11) show ?thesis by (auto simp: pr split: if_splits)
  qed
  then have "frame d s s5" by (rule frame_trans [OF f4])
  then show ?thesis unfolding data(12) pr by (rule frame_trans) (rule frame_select_reader)
qed

lemma frame_finish:
  "frame d s1 (fd_upd x (\<lambda>f. f\<lparr>suspended := UDS_NOT_SUSPENDED\<rparr>) (chardriver_reply_task e i r s1))"
  by (rule frame_trans [OF frame_reply(2)]) (auto intro!: frame_upd_other)

lemma uds_unsuspend_frame:
  assumes "uds_unsuspend n c x s = Inr s'"
    and "write_dest c h s = Some d" "0 \<le> d"
    and "peer (fd_at s d) = -1 \<or> peer (fd_at s d) = h"
    and "(x = d \<and> suspended (fd_at s d) = UDS_SUSPENDED_READ)
         \<or> (x = h \<and> suspended (fd_at s h) = UDS_SUSPENDED_WRITE)"
  shows "frame d s s'"
  using assms
proof (induction n arbitrary: x s s')
  case 0
  then show ?case by simp
next
  case (Suc n)
  have cb_w: "frame d s1 s2"
    if "frame d s s1" "suspended (fd_at s1 h) = UDS_SUSPENDED_WRITE"
      "uds_unsuspend n c h s1 = Inr s2" for s1 s2
  proof (rule Suc.IH [OF that(3)])
    show "write_dest c h s1 = Some d" using Suc.prems(2) by (simp add: frame_write_dest [OF that(1)])
    show "0 \<le> d" by fact
    show "peer (fd_at s1 d) = -1 \<or> peer (fd_at s1 d) = h"
      using Suc.prems(4) by (simp add: frame_fd_at [OF that(1)])
    show "(h = d \<and> suspended (fd_at s1 d) = UDS_SUSPENDED_READ)
         \<or> (h = h \<and> suspended (fd_at s1 h) = UDS_SUSPENDED_WRITE)"
      using that(2) by simp
  qed
  have cb_r: "frame d s1 s2"
    if "0 \<le> d" "frame d s s1" "suspended (fd_at s1 d) = UDS_SUSPENDED_READ"
      "uds_unsuspend n c d s1 = Inr s2" for s1 s2
  proof (rule Suc.IH [OF that(4)])
    show "write_dest c h s1 = Some d" using Suc.prems(2) by (simp add: frame_write_dest [OF that(2)])
    show "0 \<le> d" by fact
    show "peer (fd_at s1 d) = -1 \<or> peer (fd_at s1 d) = h"
      using Suc.prems(4) by (simp add: frame_fd_at [OF that(2)])
    show "(d = d \<and> suspended (fd_at s1 d) = UDS_SUSPENDED_READ)
         \<or> (d = h \<and> suspended (fd_at s1 h) = UDS_SUSPENDED_WRITE)"
      using that(3) by simp
  qed
  from Suc.prems(1) have
    "unsuspend_body (perform_read_body (uds_unsuspend n c) c)
       (perform_write_body (uds_unsuspend n c) c) x s = Inr s'"
    by simp
  then show ?case
  proof (cases rule: unsuspend_bodyE)
    case read_blocked
    then have x: "x = d" using Suc.prems(5) by auto
    from read_blocked(2) show ?thesis unfolding x
      by (rule perform_read_body_frame [OF _ Suc.prems(3,4) cb_w])
  next
    case write_blocked
    then have x: "x = h" using Suc.prems(5) by auto
    from write_blocked(2) show ?thesis unfolding x
      by (rule perform_write_body_frame [OF _ Suc.prems(2) cb_r])
  next
    case (read_done rc s1)
    then have x: "x = d" using Suc.prems(5) by auto
    from read_done(2) have "frame d s s1" unfolding x
      by (rule perform_read_body_frame [OF _ Suc.prems(3,4) cb_w])
    then show ?thesis unfolding read_done(4) by (rule frame_trans) (rule frame_finish)
  next
    case (write_done rc s1)
    then have x: "x = h" using Suc.prems(5) by auto
    from write_done(2) have "frame d s s1" unfolding x
      by (rule perform_write_body_frame [OF _ Suc.prems(2) cb_r])
    then show ?thesis unfolding write_done(4) by (rule frame_trans) (rule frame_finish)
  next
    case linked
    show ?thesis unfolding linked(2)
      by (rule frame_trans [OF frame_reply(2)]) (auto intro!: frame_upd_other)
  qed
qed

lemma uds_cancel_frame:
  assumes "suspended (fd_at s h) = UDS_SUSPENDED_WRITE"
  shows "frame d s (snd (uds_cancel c h endpt rid s))"
  using assms by (auto simp: uds_cancel_def Let_def intro!: frame_upd_other)

lemma perform_write_body_no_dest:
  assumes w: "perform_write_body u c h endpt grant sz pretend s = Inr (rc, s')"
    and d: "write_dest c h s = None"
  shows "frame (-1) s s'"
  using w
proof (cases rule: perform_write_bodyE)
  case same
  then show ?thesis by simp
next
  case reset
  then show ?thesis by (auto intro!: frame_upd_other)
next
  case (copy_failed pr n e)
  with d show ?thesis by simp
next
  case (data pr n s2 s5)
  with d show ?thesis by simp
qed

lemma uds_write_wrap_frame:
  assumes w: "uds_write n c h endpt grant sz nonblock rid s = Inr (rc, s')"
    and pw: "\<And>rc1 s1. perform_write_body (uds_unsuspend n c) c h endpt grant sz False s
                = Inr (rc1, s1) \<Longrightarrow> frame d s s1"
  shows "frame d s s'"
proof (cases "h < 0 \<or> h \<ge> int (NR_FDS c) \<or> state (fd_at s h) \<noteq> UDS_INUSE")
  case True
  with w show ?thesis by (auto simp: uds_write_def split: if_splits)
next
  case False
  with w obtain rc1 s1 where
    p: "perform_write_body (uds_unsuspend n c) c h endpt grant sz False s = Inr (rc1, s1)"
    by (cases "uds_perform_write n c h endpt grant sz False s")
       (auto simp: uds_write_def uds_perform_write_def)
  have f1: "frame d s s1" by (rule pw [OF p])
  define s2 where "s2 = fd_upd h (\<lambda>f. f\<lparr>suspended := UDS_SUSPENDED_WRITE, susp_endpt := endpt,
                                  susp_grant := grant, susp_size := sz, susp_id := rid\<rparr>) s1"
  have f2: "frame d s1 s2" unfolding s2_def by (auto intro!: frame_upd_other)
  have f3: "frame d s2 (snd (uds_cancel c h endpt rid s2))"
    by (rule uds_cancel_frame) (simp add: s2_def)
  have "s' = s1 \<or> s' = s2 \<or> s' = snd (uds_cancel c h endpt rid s2)"
    using w False p
    by (auto simp: uds_write_def uds_perform_write_def s2_def Let_def split: if_splits)
  then show ?thesis
    using f1 f2 f3 by (auto intro: frame_trans)
qed

lemma uds_write_frame:
  assumes w: "uds_write n c h endpt grant sz nonblock rid s = Inr (rc, s')"
    and d: "write_dest c h s = Some d"
    and p: "peer (fd_at s d) = -1 \<or> peer (fd_at s d) = h"
  shows "frame d s s'"
proof (rule uds_write_wrap_frame [OF w])
  fix rc1 s1
  assume pw: "perform_write_body (uds_unsuspend n c) c h endpt grant sz False s = Inr (rc1, s1)"
  have cb: "frame d s1 s2"
    if "0 \<le> d" "frame d s s1" "suspended (fd_at s1 d) = UDS_SUSPENDED_READ"
      "uds_unsuspend n c d s1 = Inr s2" for s1 s2
  proof (rule uds_unsuspend_frame [OF that(4)])
    show "write_dest c h s1 = Some d" using d by (simp add: frame_write_dest [OF that(2)])
    show "0 \<le> d" by fact
    show "peer (fd_at s1 d) = -1 \<or> peer (fd_at s1 d) = h"
      using p by (simp add: frame_fd_at [OF that(2)])
    show "(d = d \<and> suspended (fd_at s1 d) = UDS_SUSPENDED_READ)
         \<or> (d = h \<and> suspended (fd_at s1 h) = UDS_SUSPENDED_WRITE)"
      using that(3) by simp
  qed
  show "frame d s s1"
    by (rule perform_write_body_frame [OF pw d cb])
qed


section \<open>The claims\<close>

subsection \<open>C7: cancel\<close>

lemma uds_cancel_fold_suspended:
  "suspended (fd_at (fold (\<lambda>i s'. if child (uds_fd_table s' i) = m
                                      then fd_upd (int i) (\<lambda>f. f\<lparr>child := -1\<rparr>) s' else s') xs s) j)
    = suspended (fd_at s j)"
  by (induction xs arbitrary: s) auto

text \<open>
  Claim C7. \<^verbatim>\<open>cancel(h, endpt, id)\<close> returns \<^verbatim>\<open>EINTR\<close> and sets the slot's \<^verbatim>\<open>suspended\<close>
  field to \<^verbatim>\<open>UDS_NOT_SUSPENDED\<close> exactly when \<open>h\<close> is in range, the slot is in use, the slot
  is suspended, and the saved endpoint and request id are those of the call; in every
  other case it returns \<^verbatim>\<open>EDONTREPLY\<close> and leaves the whole state unchanged.
\<close>

theorem uds_cancel_exactly_when:
  "(if 0 \<le> h \<and> h < int (NR_FDS c) \<and> state (fd_at s h) = UDS_INUSE
       \<and> suspended (fd_at s h) \<noteq> UDS_NOT_SUSPENDED
       \<and> susp_endpt (fd_at s h) = endpt \<and> susp_id (fd_at s h) = rid
    then fst (uds_cancel c h endpt rid s) = Err EINTR
         \<and> suspended (fd_at (snd (uds_cancel c h endpt rid s)) h) = UDS_NOT_SUSPENDED
    else uds_cancel c h endpt rid s = (Err EDONTREPLY, s))"
  by (auto simp: uds_cancel_def Let_def uds_cancel_fold_suspended split: suspension.splits)

theorem uds_cancel_exactly_when_witness:
  "uds_read 0 ex_config 1 (ENDPT 7) (GRANT 1) 8 False 100 (ex_pair SOCK_STREAM)
     = Inr (Err EDONTREPLY, ex_blocked_reader)
   \<and> fst (uds_cancel ex_config 1 (ENDPT 7) 100 ex_blocked_reader) = Err EINTR
   \<and> suspended (fd_at (snd (uds_cancel ex_config 1 (ENDPT 7) 100 ex_blocked_reader)) 1)
       = UDS_NOT_SUSPENDED
   \<and> uds_cancel ex_config 1 (ENDPT 7) 101 ex_blocked_reader = (Err EDONTREPLY, ex_blocked_reader)
   \<and> uds_cancel ex_config 5 (ENDPT 7) 100 ex_blocked_reader = (Err EDONTREPLY, ex_blocked_reader)"
proof -
  have f: "state (fd_at ex_blocked_reader 1) = UDS_INUSE"
    "suspended (fd_at ex_blocked_reader 1) = UDS_SUSPENDED_READ"
    "susp_endpt (fd_at ex_blocked_reader 1) = ENDPT 7"
    "susp_id (fd_at ex_blocked_reader 1) = 100" "NR_FDS ex_config = 4"
    by (simp_all add: ex_blocked_reader_def ex_pair_def ex_config_def ex_fd_def fd_at_def
          fd_upd_def)
  have r: "uds_read 0 ex_config 1 (ENDPT 7) (GRANT 1) 8 False 100 (ex_pair SOCK_STREAM)
     = Inr (Err EDONTREPLY, ex_blocked_reader)"
    by (simp add: uds_read_def uds_perform_read_def perform_read_body_def ex_blocked_reader_def
          ex_pair_def ex_config_def ex_fd_def fd_at_def fd_upd_def in_table_def Let_def)
  show ?thesis
    using f r uds_cancel_exactly_when [of 1 ex_config ex_blocked_reader "ENDPT 7" 100]
      uds_cancel_exactly_when [of 1 ex_config ex_blocked_reader "ENDPT 7" 101]
      uds_cancel_exactly_when [of 5 ex_config ex_blocked_reader "ENDPT 7" 100]
    by simp
qed

subsection \<open>C4: the invariant of the ring buffers\<close>

text \<open>
  Claim C4. The invariant that every slot in use has \<open>size \<le> B\<close>, \<open>pos < B\<close> and
  \<open>size = 0 \<longrightarrow> pos = 0\<close> is preserved by every operation: open, close, read, write,
  select, cancel and unsuspend, whatever the depth of the wake-ups they make. The capacity
  \<open>B\<close> of a buffer is positive.
\<close>

theorem buffer_invariant_preserved:
  assumes "0 < UDS_BUF c" and "buf_inv c s"
  shows "buf_inv c (snd (uds_open c user_endpt mmap_ok s))
       \<and> (\<forall>rc s'. uds_close n c h s = Inr (rc, s') \<longrightarrow> buf_inv c s')
       \<and> (\<forall>rc s'. uds_read n c h endpt grant sz nonblock rid s = Inr (rc, s') \<longrightarrow> buf_inv c s')
       \<and> (\<forall>rc s'. uds_write n c h endpt grant sz nonblock rid s = Inr (rc, s') \<longrightarrow> buf_inv c s')
       \<and> (\<forall>rc s'. uds_select c h ops endpt s = Inr (rc, s') \<longrightarrow> buf_inv c s')
       \<and> buf_inv c (snd (uds_cancel c h endpt rid s))
       \<and> (\<forall>s'. uds_unsuspend n c h s = Inr s' \<longrightarrow> buf_inv c s')"
  using assms
  by (auto intro: uds_open_inv uds_close_inv uds_read_inv uds_write_inv uds_select_inv
        uds_cancel_inv uds_unsuspend_inv)

theorem buffer_invariant_preserved_witness:
  "0 < UDS_BUF ex_config \<and> buf_inv ex_config (ex_pair SOCK_STREAM)
   \<and> map_sum id fst (uds_write 0 ex_config 1 (ENDPT 7) (GRANT 1) 3 False 100 (ex_pair SOCK_STREAM))
       = Inr (Ret 3)
   \<and> size_fd (fd_at (snd (projr (uds_write 0 ex_config 1 (ENDPT 7) (GRANT 1) 3 False 100
                                   (ex_pair SOCK_STREAM)))) 2) = 3
   \<and> buf_inv ex_config
        (snd (projr (uds_write 0 ex_config 1 (ENDPT 7) (GRANT 1) 3 False 100
                       (ex_pair SOCK_STREAM))))
   \<and> buf_inv ex_config (snd (uds_open ex_config (ENDPT 8) True (ex_pair SOCK_STREAM)))"
proof -
  have c: "0 < UDS_BUF ex_config"
    by (simp add: ex_config_def)
  have i: "buf_inv ex_config (ex_pair SOCK_STREAM)"
    by (auto simp: buf_inv_def ring_ok_def ex_pair_def ex_config_def ex_fd_def zero_fd_def)
  have w: "\<exists>s'. uds_write 0 ex_config 1 (ENDPT 7) (GRANT 1) 3 False 100 (ex_pair SOCK_STREAM)
             = Inr (Ret 3, s') \<and> size_fd (fd_at s' 2) = 3"
    by (simp add: uds_write_def uds_perform_write_def perform_write_body_def ring_put_def
          advance_head_def select_reader_def sys_safecopyfrom_def buf_store_def
          ex_pair_def ex_config_def ex_fd_def ex_grants_def fd_at_def fd_upd_def in_table_def
          Let_def)
  then obtain s' where s': "uds_write 0 ex_config 1 (ENDPT 7) (GRANT 1) 3 False 100
      (ex_pair SOCK_STREAM) = Inr (Ret 3, s')" "size_fd (fd_at s' 2) = 3"
    by blast
  from buffer_invariant_preserved [OF c i, of "ENDPT 8" True 0 1 "ENDPT 7" "GRANT 1" 3 False 100]
  show ?thesis
    using c i s' by simp
qed


subsection \<open>C10 and C9: reads on an empty buffer\<close>

lemma perform_read_empty_blocks:
  assumes "0 < sz" "UDS_R \<in> mode (fd_at s h)" "size_fd (fd_at s h) = 0"
    and "peer (fd_at s h) = -1 \<longrightarrow> \<not> conn_oriented (fd_at s h)"
    and "peer (fd_at s h) \<noteq> -1 \<longrightarrow>
           in_table c (peer (fd_at s h)) \<and> UDS_W \<in> mode (fd_at s (peer (fd_at s h)))
           \<and> suspended (fd_at s (peer (fd_at s h))) \<noteq> UDS_SUSPENDED_WRITE"
  shows "uds_perform_read n c h endpt grant sz False s = Inr (Err EDONTREPLY, s)"
  using assms
  by (cases "peer (fd_at s h) = -1")
     (simp_all add: uds_perform_read_def perform_read_body_def conn_oriented_def Let_def)

lemma uds_read_blocks:
  assumes "0 \<le> h" "h < int (NR_FDS c)" "state (fd_at s h) = UDS_INUSE"
    and "uds_perform_read n c h endpt grant sz False s = Inr (Err EDONTREPLY, s)"
  shows "uds_read n c h endpt grant sz False rid s =
           Inr (Err EDONTREPLY,
                fd_upd h (\<lambda>f. f\<lparr>suspended := UDS_SUSPENDED_READ, susp_endpt := endpt,
                                susp_grant := grant, susp_size := sz, susp_id := rid\<rparr>) s)"
    and "uds_read n c h endpt grant sz True rid s =
           Inr (Err EAGAIN,
                fd_upd h (\<lambda>f. f\<lparr>susp_endpt := endpt, susp_grant := grant, susp_size := sz,
                                susp_id := rid, suspended := UDS_NOT_SUSPENDED\<rparr>) s)"
  using assms by (simp_all add: uds_read_def uds_cancel_def Let_def)

text \<open>
  Claim C10. A socket whose type was never assigned (it is none of stream, sequenced
  packet and datagram, as after open) and that has no peer does not fail a read of
  \<open>sz > 0\<close> bytes on its empty buffer with \<^verbatim>\<open>ENOTCONN\<close>: a blocking read suspends the
  caller, a non-blocking read returns \<^verbatim>\<open>EAGAIN\<close>, and a datagram socket in the same state
  gets the same results.
\<close>

theorem uds_read_unset_type_suspends:
  assumes "0 \<le> h" "h < int (NR_FDS c)" "state (fd_at s h) = UDS_INUSE"
    and "type (fd_at s h) = SOCK_NONE v \<or> type (fd_at s h) = SOCK_DGRAM"
    and "UDS_R \<in> mode (fd_at s h)" "size_fd (fd_at s h) = 0" "peer (fd_at s h) = -1" "0 < sz"
  shows "uds_read n c h endpt grant sz False rid s =
           Inr (Err EDONTREPLY,
                fd_upd h (\<lambda>f. f\<lparr>suspended := UDS_SUSPENDED_READ, susp_endpt := endpt,
                                susp_grant := grant, susp_size := sz, susp_id := rid\<rparr>) s)
       \<and> uds_read n c h endpt grant sz True rid s =
           Inr (Err EAGAIN,
                fd_upd h (\<lambda>f. f\<lparr>susp_endpt := endpt, susp_grant := grant, susp_size := sz,
                                susp_id := rid, suspended := UDS_NOT_SUSPENDED\<rparr>) s)"
proof -
  have "\<not> conn_oriented (fd_at s h)"
    using assms(4) by (auto simp: conn_oriented_def)
  then have "uds_perform_read n c h endpt grant sz False s = Inr (Err EDONTREPLY, s)"
    using assms by (intro perform_read_empty_blocks) simp_all
  then show ?thesis
    using uds_read_blocks [OF assms(1-3)] by simp
qed

theorem uds_read_unset_type_suspends_witness:
  "fst (uds_open ex_config (ENDPT 7) True (uds_init ex_config ex_grants)) = CDEV_CLONED 1
   \<and> type (fd_at ex_opened 1) = SOCK_NONE (-1)
   \<and> uds_read 0 ex_config 1 (ENDPT 7) (GRANT 1) 3 False 100 ex_opened =
        Inr (Err EDONTREPLY,
             fd_upd 1 (\<lambda>f. f\<lparr>suspended := UDS_SUSPENDED_READ, susp_endpt := ENDPT 7,
                             susp_grant := GRANT 1, susp_size := 3, susp_id := 100\<rparr>) ex_opened)
   \<and> uds_read 0 ex_config 1 (ENDPT 7) (GRANT 1) 3 True 100 ex_opened =
        Inr (Err EAGAIN,
             fd_upd 1 (\<lambda>f. f\<lparr>susp_endpt := ENDPT 7, susp_grant := GRANT 1, susp_size := 3,
                             susp_id := 100, suspended := UDS_NOT_SUSPENDED\<rparr>) ex_opened)"
proof -
  have o: "fst (uds_open ex_config (ENDPT 7) True (uds_init ex_config ex_grants)) = CDEV_CLONED 1"
    by (simp add: uds_open_def uds_init_def ex_config_def zero_fd_def upt_rec)
  have f: "state (fd_at ex_opened 1) = UDS_INUSE" "type (fd_at ex_opened 1) = SOCK_NONE (-1)"
      "UDS_R \<in> mode (fd_at ex_opened 1)" "size_fd (fd_at ex_opened 1) = 0"
      "peer (fd_at ex_opened 1) = -1"
    by (simp_all add: ex_opened_def uds_open_def uds_init_def ex_config_def zero_fd_def upt_rec)
  have r: "(1::int) < int (NR_FDS ex_config)"
    by (simp add: ex_config_def)
  show ?thesis
    using o f uds_read_unset_type_suspends [of 1 ex_config ex_opened "-1" 3 0 "ENDPT 7" "GRANT 1" 100,
        OF _ r]
    by simp
qed

text \<open>
  Claim C9. A connected socket with an empty buffer and an open read half, whose peer has
  an open write half, answers a non-blocking read of \<open>sz > 0\<close> bytes with \<^verbatim>\<open>EAGAIN\<close>, and
  is not suspended afterwards. The peer is not a writer blocked on the empty socket, the
  state in which the read panics.
\<close>

theorem uds_read_nonblock_would_block:
  assumes "0 \<le> h" "h < int (NR_FDS c)" "state (fd_at s h) = UDS_INUSE"
    and "peer (fd_at s h) \<noteq> -1" "in_table c (peer (fd_at s h))"
    and "UDS_R \<in> mode (fd_at s h)" "size_fd (fd_at s h) = 0"
    and "UDS_W \<in> mode (fd_at s (peer (fd_at s h)))"
    and "suspended (fd_at s (peer (fd_at s h))) \<noteq> UDS_SUSPENDED_WRITE"
    and "0 < sz"
  shows "\<exists>s'. uds_read n c h endpt grant sz True rid s = Inr (Err EAGAIN, s')
              \<and> suspended (fd_at s' h) = UDS_NOT_SUSPENDED"
proof -
  have "uds_perform_read n c h endpt grant sz False s = Inr (Err EDONTREPLY, s)"
    using assms by (intro perform_read_empty_blocks) simp_all
  then show ?thesis
    using uds_read_blocks(2) [OF assms(1-3)] by simp
qed

theorem uds_read_nonblock_would_block_witness:
  "map_sum id fst (uds_read 0 ex_config 1 (ENDPT 7) (GRANT 1) 8 True 100 (ex_pair SOCK_STREAM))
     = Inr (Err EAGAIN)
   \<and> suspended (fd_at (snd (projr (uds_read 0 ex_config 1 (ENDPT 7) (GRANT 1) 8 True 100
                                     (ex_pair SOCK_STREAM)))) 1) = UDS_NOT_SUSPENDED"
proof -
  have f: "state (fd_at (ex_pair SOCK_STREAM) 1) = UDS_INUSE"
    "peer (fd_at (ex_pair SOCK_STREAM) 1) = 2" "in_table ex_config 2"
    "UDS_R \<in> mode (fd_at (ex_pair SOCK_STREAM) 1)" "size_fd (fd_at (ex_pair SOCK_STREAM) 1) = 0"
    "UDS_W \<in> mode (fd_at (ex_pair SOCK_STREAM) 2)"
    "suspended (fd_at (ex_pair SOCK_STREAM) 2) \<noteq> UDS_SUSPENDED_WRITE"
    "(1::int) < int (NR_FDS ex_config)"
    by (simp_all add: ex_pair_def ex_config_def ex_fd_def fd_at_def in_table_def)
  from uds_read_nonblock_would_block [of 1 ex_config "ex_pair SOCK_STREAM" 8 0 "ENDPT 7" "GRANT 1" 100]
  show ?thesis
    using f by auto
qed

subsection \<open>C6 and C5: dropped datagrams, and close\<close>

text \<open>
  Claim C6. A datagram write of \<open>sz\<close> bytes, \<open>0 < sz \<le> B\<close>, whose target address resolves
  to a slot \<open>d\<close> with an open read half and a non-empty buffer returns \<open>sz\<close> and leaves the
  whole state as it is: the buffer of \<open>d\<close>, its position, its size and its source address
  keep their values.
\<close>

theorem dgram_write_dropped:
  assumes "0 \<le> h" "h < int (NR_FDS c)" "state (fd_at s h) = UDS_INUSE"
    and "type (fd_at s h) = SOCK_DGRAM" "UDS_W \<in> mode (fd_at s h)"
    and "0 < sz" "sz \<le> UDS_BUF c"
    and "locate_peer c h s = Some d"
    and "UDS_R \<in> mode (fd_at s d)" "0 < size_fd (fd_at s d)"
  shows "uds_write n c h endpt grant sz nonblock rid s = Inr (Ret sz, s)"
proof -
  have "uds_perform_write n c h endpt grant sz False s = Inr (Ret sz, s)"
    using assms(4-10) by (simp add: uds_perform_write_def perform_write_body_def Let_def)
  then show ?thesis
    using assms(1-3) by (simp add: uds_write_def)
qed

theorem dgram_write_dropped_witness:
  "locate_peer ex_config 1 ex_dgram_busy = Some 2
   \<and> type (fd_at ex_dgram_busy 2) = SOCK_DGRAM
   \<and> sun_path (addr (fd_at ex_dgram_busy 2)) = sun_path (target (fd_at ex_dgram_busy 1))
   \<and> uds_write 0 ex_config 1 (ENDPT 7) (GRANT 1) 3 False 100 ex_dgram_busy
        = Inr (Ret 3, ex_dgram_busy)"
proof -
  have l: "locate_peer ex_config 1 ex_dgram_busy = Some 2"
    by (simp add: locate_peer_def ex_dgram_busy_def ex_dgram_def ex_fd_def ex_config_def
          zero_fd_def zero_sockaddr_def fd_at_def upt_rec)
  have f: "state (fd_at ex_dgram_busy 1) = UDS_INUSE" "type (fd_at ex_dgram_busy 1) = SOCK_DGRAM"
    "UDS_W \<in> mode (fd_at ex_dgram_busy 1)" "UDS_R \<in> mode (fd_at ex_dgram_busy 2)"
    "0 < size_fd (fd_at ex_dgram_busy 2)" "type (fd_at ex_dgram_busy 2) = SOCK_DGRAM"
    "sun_path (addr (fd_at ex_dgram_busy 2)) = sun_path (target (fd_at ex_dgram_busy 1))"
    "(1::int) < int (NR_FDS ex_config)" "(3::nat) \<le> UDS_BUF ex_config"
    by (simp_all add: ex_dgram_busy_def ex_dgram_def ex_fd_def ex_config_def fd_at_def)
  from dgram_write_dropped [of 1 ex_config ex_dgram_busy 3 2 0 "ENDPT 7" "GRANT 1" False 100]
  show ?thesis
    using l f by simp
qed

lemma fd_at_close_slot:
  "nat a \<noteq> nat b \<Longrightarrow> fd_at (close_slot c b s) a = fd_at s a"
  by (simp add: close_slot_def uds_clear_fds_def Let_def fd_at_def fd_upd_def)

lemma uds_reset_idle:
  assumes "in_table c a" "suspended (fd_at s a) = UDS_NOT_SUSPENDED"
  shows "\<exists>s'. uds_reset n c a s = Inr s'
           \<and> fd_at s' a = (fd_at s a)\<lparr>peer := -1, err := Some ECONNRESET, sel_ops := {}\<rparr>"
  using assms by (simp add: uds_reset_def Let_def)

lemma uds_close_connected:
  assumes "in_table c a" "in_table c b" "a \<noteq> b" "state (fd_at s b) = UDS_INUSE"
    and "peer (fd_at s b) = a" "peer (fd_at s a) \<noteq> -1"
    and "suspended (fd_at s a) = UDS_NOT_SUSPENDED"
  shows "\<exists>s'. uds_close n c b s = Inr (Ret 0, s')
           \<and> fd_at s' a = (fd_at s a)\<lparr>peer := -1, err := Some ECONNRESET, sel_ops := {}\<rparr>"
proof -
  from uds_reset_idle [OF assms(1,7)] obtain s1 where
    s1: "uds_reset n c a s = Inr s1"
      "fd_at s1 a = (fd_at s a)\<lparr>peer := -1, err := Some ECONNRESET, sel_ops := {}\<rparr>"
    by blast
  have a: "a \<noteq> -1" "nat a \<noteq> nat b" "0 \<le> b" "b < int (NR_FDS c)"
    using assms(1-3) by (auto simp: in_table_def)
  have "close_peer n c b s = Inr s1"
    using assms a s1(1) by (simp add: close_peer_def Let_def)
  then have "uds_close n c b s = Inr (Ret 0, close_slot c b s1)"
    using assms(4) a by (simp add: uds_close_def)
  then show ?thesis
    using s1(2) a(2) by (simp add: fd_at_close_slot)
qed

text \<open>
  Claim C5, as amended. For a connected pair \<open>a\<close>, \<open>b\<close> where \<open>a\<close> is a stream socket with an
  empty buffer, an open read half and no suspended request: \<^verbatim>\<open>close(b)\<close> returns \<^verbatim>\<open>OK\<close>,
  the first read on \<open>a\<close> with \<open>sz > 0\<close> afterwards returns \<^verbatim>\<open>ECONNRESET\<close> and consumes the
  sticky error, and a second such read returns \<^verbatim>\<open>ENOTCONN\<close>.
\<close>

theorem close_then_connreset_once:
  assumes "in_table c a" "in_table c b" "a \<noteq> b"
    and "state (fd_at s a) = UDS_INUSE" "state (fd_at s b) = UDS_INUSE"
    and "peer (fd_at s a) = b" "peer (fd_at s b) = a"
    and "type (fd_at s a) = SOCK_STREAM" "size_fd (fd_at s a) = 0"
    and "UDS_R \<in> mode (fd_at s a)" "suspended (fd_at s a) = UDS_NOT_SUSPENDED"
    and "0 < sz1" "0 < sz2"
  shows "\<exists>s1 s2. uds_close n c b s = Inr (Ret 0, s1)
           \<and> uds_read n1 c a e1 g1 sz1 nb1 rid1 s1 = Inr (Err ECONNRESET, s2)
           \<and> err (fd_at s2 a) = None
           \<and> uds_read n2 c a e2 g2 sz2 nb2 rid2 s2 = Inr (Err ENOTCONN, s2)"
proof -
  have b: "peer (fd_at s a) \<noteq> -1" "0 \<le> a" "a < int (NR_FDS c)"
    using assms(1,2,6) by (auto simp: in_table_def)
  from uds_close_connected [OF assms(1,2,3,5,7) b(1) assms(11)] obtain s1 where
    s1: "uds_close n c b s = Inr (Ret 0, s1)"
      "fd_at s1 a = (fd_at s a)\<lparr>peer := -1, err := Some ECONNRESET, sel_ops := {}\<rparr>"
    by blast
  define s2 where "s2 = fd_upd a (\<lambda>f. f\<lparr>err := None\<rparr>) s1"
  have "uds_perform_read n1 c a e1 g1 sz1 False s1 = Inr (Err ECONNRESET, s2)"
    using assms(8-10,12) s1(2)
    by (simp add: uds_perform_read_def perform_read_body_def Let_def s2_def)
  then have r1: "uds_read n1 c a e1 g1 sz1 nb1 rid1 s1 = Inr (Err ECONNRESET, s2)"
    using assms(4) b s1(2) by (simp add: uds_read_def)
  have f2: "fd_at s2 a = (fd_at s a)\<lparr>peer := -1, err := None, sel_ops := {}\<rparr>"
    using s1(2) by (simp add: s2_def)
  have "uds_perform_read n2 c a e2 g2 sz2 False s2 = Inr (Err ENOTCONN, s2)"
    using assms(8-10,13) f2
    by (simp add: uds_perform_read_def perform_read_body_def Let_def)
  then have r2: "uds_read n2 c a e2 g2 sz2 nb2 rid2 s2 = Inr (Err ENOTCONN, s2)"
    using assms(4) b f2 by (simp add: uds_read_def)
  show ?thesis
    using s1(1) r1 r2 f2 by auto
qed

theorem close_then_connreset_once_witness:
  "map_sum id fst (uds_close 0 ex_config 2 (ex_pair SOCK_STREAM)) = Inr (Ret 0)
   \<and> map_sum id fst
       (uds_read 0 ex_config 1 (ENDPT 7) (GRANT 1) 8 False 100
          (snd (projr (uds_close 0 ex_config 2 (ex_pair SOCK_STREAM)))))
       = Inr (Err ECONNRESET)
   \<and> map_sum id fst
       (uds_read 0 ex_config 1 (ENDPT 7) (GRANT 1) 8 False 101
          (snd (projr (uds_read 0 ex_config 1 (ENDPT 7) (GRANT 1) 8 False 100
             (snd (projr (uds_close 0 ex_config 2 (ex_pair SOCK_STREAM))))))))
       = Inr (Err ENOTCONN)"
proof -
  have f: "in_table ex_config 1" "in_table ex_config 2"
    "state (fd_at (ex_pair SOCK_STREAM) 1) = UDS_INUSE"
    "state (fd_at (ex_pair SOCK_STREAM) 2) = UDS_INUSE"
    "peer (fd_at (ex_pair SOCK_STREAM) 1) = 2" "peer (fd_at (ex_pair SOCK_STREAM) 2) = 1"
    "type (fd_at (ex_pair SOCK_STREAM) 1) = SOCK_STREAM"
    "size_fd (fd_at (ex_pair SOCK_STREAM) 1) = 0"
    "UDS_R \<in> mode (fd_at (ex_pair SOCK_STREAM) 1)"
    "suspended (fd_at (ex_pair SOCK_STREAM) 1) = UDS_NOT_SUSPENDED"
    by (simp_all add: ex_pair_def ex_config_def ex_fd_def fd_at_def in_table_def)
  from close_then_connreset_once [of ex_config 1 2 "ex_pair SOCK_STREAM" 8 8 0 0
      "ENDPT 7" "GRANT 1" False 100 0 "ENDPT 7" "GRANT 1" False 101]
  show ?thesis
    using f by auto
qed

text \<open>
  Claim C5 as stated fails when \<open>a\<close> holds a blocked reader: closing \<open>b\<close> wakes that reader
  up with \<^verbatim>\<open>ECONNRESET\<close>, which consumes the sticky error, and the first read on \<open>a\<close> after
  the close returns \<^verbatim>\<open>ENOTCONN\<close>.
\<close>

theorem close_then_connreset_counterexample:
  "type (fd_at ex_blocked_reader 1) = SOCK_STREAM
   \<and> peer (fd_at ex_blocked_reader 1) = 2 \<and> peer (fd_at ex_blocked_reader 2) = 1
   \<and> size_fd (fd_at ex_blocked_reader 1) = 0
   \<and> map_sum id fst (uds_close 1 ex_config 2 ex_blocked_reader) = Inr (Ret 0)
   \<and> replies (snd (projr (uds_close 1 ex_config 2 ex_blocked_reader)))
       = [REPLY_TASK (ENDPT 7) 100 (Err ECONNRESET)]
   \<and> map_sum id fst
       (uds_read 0 ex_config 1 (ENDPT 7) (GRANT 1) 8 False 101
          (snd (projr (uds_close 1 ex_config 2 ex_blocked_reader))))
       = Inr (Err ENOTCONN)"
  by (simp add: uds_close_def close_peer_def close_slot_def uds_reset_def unsuspend_body_def
        uds_read_def uds_perform_read_def perform_read_body_def chardriver_reply_task_def
        ex_blocked_reader_def ex_pair_def ex_config_def ex_fd_def zero_fd_def
        fd_at_def fd_upd_def in_table_def Let_def)

subsection \<open>C1: a short read of a sequenced packet\<close>

text \<open>
  Claim C1, as amended. On a connected sequenced-packet pair \<open>a\<close>, \<open>b\<close> with the buffer of
  \<open>b\<close> empty and no request blocked, a write on \<open>a\<close> of a message of \<open>m \<le> B\<close> bytes
  succeeds, and a read on \<open>b\<close> of \<open>r\<close> bytes, \<open>0 < r < m\<close>, returns \<open>r\<close> bytes, the first
  \<open>r\<close> bytes of the message. The residual \<open>m - r\<close> bytes are not discarded: they stay in
  the buffer of \<open>b\<close>, whose size is \<open>m - r\<close> after the read.
\<close>

theorem seqpacket_short_read_keeps_residual:
  assumes con: "connected c SOCK_SEQPACKET a b s"
    and m: "UDS_W \<in> mode (fd_at s a)" "UDS_R \<in> mode (fd_at s b)"
    and idle: "suspended (fd_at s a) \<noteq> UDS_SUSPENDED_WRITE"
      "suspended (fd_at s b) \<noteq> UDS_SUSPENDED_READ"
    and B: "length (buf (fd_at s b)) = UDS_BUF c" "pos_fd (fd_at s b) < UDS_BUF c"
      "size_fd (fd_at s b) = 0"
    and r: "0 < r" "r < m" "m \<le> UDS_BUF c"
    and g: "grants s (e, g) = Some msg" "m \<le> length msg"
    and g': "grants s (e', g') = Some region" "r \<le> length region"
  shows "\<exists>s1 s2. uds_write n c a e g m nb rid s = Inr (Ret m, s1)
           \<and> uds_read n' c b e' g' r nb' rid' s1 = Inr (Ret r, s2)
           \<and> grants s2 (e', g') = Some (take r msg @ drop r region)
           \<and> size_fd (fd_at s2 b) = m - r
           \<and> ring_data (fd_at s2 b) = drop r (take m msg)"
proof -
  note c = connectedD [OF con]
  have "size_fd (fd_at s b) + m \<le> UDS_BUF c" "0 < m"
    using B(3) r by simp_all
  from uds_write_connected [OF con _ m idle(2) B(1,2) this(1) _ this(2) g, of n nb rid]
  obtain s1 b' so where w: "uds_write n c a e g m nb rid s = Inr (Ret m, s1)"
    and g1: "grants s1 = grants s"
    and o1: "\<And>j. nat j \<noteq> nat b \<Longrightarrow> fd_at s1 j = fd_at s j"
    and b1: "fd_at s1 b = (fd_at s b)\<lparr>buf := b', size_fd := size_fd (fd_at s b) + m,
                                       sel_ops := so\<rparr>"
    and lb: "length b' = UDS_BUF c"
    and d1: "take (size_fd (fd_at s b) + m) (rotate (pos_fd (fd_at s b)) b')
               = take (size_fd (fd_at s b)) (rotate (pos_fd (fd_at s b)) (buf (fd_at s b)))
                 @ take m msg"
    using B(3) by auto
  have a1: "fd_at s1 a = fd_at s a" using o1 c(5) by simp
  have con1: "connected c SOCK_SEQPACKET b a s1"
    by (rule connected_sym, rule connected_cong [OF con]) (simp_all add: a1 b1)
  have d: "take m (rotate (pos_fd (fd_at s b)) b') = take m msg"
    using d1 B(3) by simp
  have pre: "UDS_R \<in> mode (fd_at s1 b)" "suspended (fd_at s1 a) \<noteq> UDS_SUSPENDED_WRITE"
    "length (buf (fd_at s1 b)) = UDS_BUF c" "pos_fd (fd_at s1 b) < UDS_BUF c"
    "size_fd (fd_at s1 b) \<le> UDS_BUF c" "r \<le> size_fd (fd_at s1 b)"
    "grants s1 (e', g') = Some region"
    using m idle B r lb g' by (simp_all add: a1 b1 g1)
  from uds_read_connected [OF con1 pre(1-5) r(1) pre(6,7) g'(2), of n' nb' rid']
  obtain s2 where rd: "uds_read n' c b e' g' r nb' rid' s1 = Inr (Ret r, s2)"
    and g2: "grants s2 = (grants s1)((e', g') \<mapsto>
                 take r (rotate (pos_fd (fd_at s1 b)) (buf (fd_at s1 b))) @ drop r region)"
    and b2: "fd_at s2 b = (fd_at s1 b)\<lparr>pos_fd := (if size_fd (fd_at s1 b) = r then 0
                                        else (pos_fd (fd_at s1 b) + r) mod UDS_BUF c),
                                      size_fd := size_fd (fd_at s1 b) - r\<rparr>"
    by blast
  have "take r (rotate (pos_fd (fd_at s b)) b') = take r (take m (rotate (pos_fd (fd_at s b)) b'))"
    using r by (simp add: min_def)
  also have "\<dots> = take r msg" using r by (simp add: d min_def)
  finally have t: "take r (rotate (pos_fd (fd_at s b)) b') = take r msg" .
  have "ring_data (fd_at s2 b) =
          take (m - r) (rotate (if m = r then 0 else (pos_fd (fd_at s b) + r) mod UDS_BUF c) b')"
    using B(3) by (simp add: ring_data_def b2 b1)
  also have "\<dots> = drop r (take m (rotate (pos_fd (fd_at s b)) b'))"
    using lb B(2) r by (intro ring_data_advance) simp_all
  finally have rd2: "ring_data (fd_at s2 b) = drop r (take m msg)" by (simp add: d)
  show ?thesis
    using w rd rd2 B(3) by (auto simp: g2 b2 b1 t)
qed

theorem seqpacket_short_read_keeps_residual_witness:
  "map_sum id fst
     (uds_write 0 ex_config 1 (ENDPT 7) (GRANT 1) 3 False 100 (ex_pair SOCK_SEQPACKET))
     = Inr (Ret 3)
   \<and> (\<exists>s1 s2. uds_write 0 ex_config 1 (ENDPT 7) (GRANT 1) 3 False 100 (ex_pair SOCK_SEQPACKET)
                 = Inr (Ret 3, s1)
        \<and> uds_read 0 ex_config 2 (ENDPT 8) (GRANT 2) 2 False 101 s1 = Inr (Ret 2, s2)
        \<and> grants s2 (ENDPT 8, GRANT 2) = Some [97, 98, 0, 0]
        \<and> size_fd (fd_at s2 2) = 1
        \<and> ring_data (fd_at s2 2) = [99])"
proof -
  have f: "connected ex_config SOCK_SEQPACKET 1 2 (ex_pair SOCK_SEQPACKET)"
    "UDS_W \<in> mode (fd_at (ex_pair SOCK_SEQPACKET) 1)"
    "UDS_R \<in> mode (fd_at (ex_pair SOCK_SEQPACKET) 2)"
    "suspended (fd_at (ex_pair SOCK_SEQPACKET) 1) \<noteq> UDS_SUSPENDED_WRITE"
    "suspended (fd_at (ex_pair SOCK_SEQPACKET) 2) \<noteq> UDS_SUSPENDED_READ"
    "length (buf (fd_at (ex_pair SOCK_SEQPACKET) 2)) = UDS_BUF ex_config"
    "pos_fd (fd_at (ex_pair SOCK_SEQPACKET) 2) < UDS_BUF ex_config"
    "size_fd (fd_at (ex_pair SOCK_SEQPACKET) 2) = 0"
    "(3::nat) \<le> UDS_BUF ex_config"
    "grants (ex_pair SOCK_SEQPACKET) (ENDPT 7, GRANT 1) = Some [97, 98, 99]"
    "grants (ex_pair SOCK_SEQPACKET) (ENDPT 8, GRANT 2) = Some [0, 0, 0, 0]"
    by (simp_all add: connected_def ex_pair_def ex_config_def ex_fd_def ex_grants_def fd_at_def
          in_table_def)
  from seqpacket_short_read_keeps_residual [OF f(1-8) _ _ f(9,10) _ f(11),
      of 2 0 False 100 0 False 101]
  show ?thesis
    by auto
qed

text \<open>
  Claim C1 as stated fails: after a message of 3 bytes is written to an empty buffer, a
  read of 2 bytes returns 2 and leaves the buffer with one byte, not empty.
\<close>

theorem seqpacket_short_read_counterexample:
  "map_sum id fst
     (uds_write 0 ex_config 1 (ENDPT 7) (GRANT 1) 3 False 100 (ex_pair SOCK_SEQPACKET))
     = Inr (Ret 3)
   \<and> map_sum id fst
       (uds_read 0 ex_config 2 (ENDPT 8) (GRANT 2) 2 False 101
          (snd (projr (uds_write 0 ex_config 1 (ENDPT 7) (GRANT 1) 3 False 100
                         (ex_pair SOCK_SEQPACKET)))))
       = Inr (Ret 2)
   \<and> size_fd (fd_at (snd (projr
         (uds_read 0 ex_config 2 (ENDPT 8) (GRANT 2) 2 False 101
            (snd (projr (uds_write 0 ex_config 1 (ENDPT 7) (GRANT 1) 3 False 100
                           (ex_pair SOCK_SEQPACKET))))))) 2) = 1"
  by (simp add: uds_write_def uds_perform_write_def perform_write_body_def ring_put_def
        advance_head_def select_reader_def sys_safecopyfrom_def buf_store_def
        uds_read_def uds_perform_read_def perform_read_body_def ring_get_def advance_tail_def
        select_writer_def sys_safecopyto_def
        ex_pair_def ex_config_def ex_fd_def ex_grants_def fd_at_def fd_upd_def in_table_def
        Let_def)

subsection \<open>C2: the byte stream of a stream pair\<close>

text \<open>
  Claim C2. On a connected stream pair \<open>a\<close>, \<open>b\<close> with no request blocked, a sequence
  \<open>ws\<close> of writes on \<open>a\<close> that fits into the free space of the buffer of \<open>b\<close> succeeds, each
  write returning its size; reads \<open>rs\<close> on \<open>b\<close> that then total the size of the buffer
  return their sizes, and the bytes they deliver, concatenated, are the bytes that the
  buffer held before, followed by the bytes written, in the order of the writes. The
  start \<open>pos\<close> of the data is arbitrary, so that the data may wrap around the end of the
  array. When the buffer of \<open>b\<close> is empty at the start, \<open>ring_data\<close> is empty and the reads
  deliver exactly the bytes written.
\<close>

theorem stream_roundtrip:
  assumes "stream_ready c a b s" and "grants_fit s ws" and "grants_fit s rs"
    and "size_fd (fd_at s b) + sum_list (map req_size ws) \<le> UDS_BUF c"
    and "sum_list (map req_size rs) = size_fd (fd_at s b) + sum_list (map req_size ws)"
  shows "\<exists>s1 out s2.
           write_all n c a ws s = Inr (map (\<lambda>q. Ret (req_size q)) ws, s1)
           \<and> read_all n' c b rs s1 = Inr (out, s2)
           \<and> map fst out = map (\<lambda>q. Ret (req_size q)) rs
           \<and> concat (map snd out) = ring_data (fd_at s b) @ concat (map (sent s) ws)
           \<and> size_fd (fd_at s2 b) = 0"
proof -
  from write_all_stream [OF assms(1,2,4), of n] obtain s1 where
    w: "write_all n c a ws s = Inr (map (\<lambda>q. Ret (req_size q)) ws, s1)"
      "stream_ready c a b s1" "grants s1 = grants s"
      "size_fd (fd_at s1 b) = size_fd (fd_at s b) + sum_list (map req_size ws)"
      "ring_data (fd_at s1 b) = ring_data (fd_at s b) @ concat (map (sent s) ws)"
    by blast
  have fit: "grants_fit s1 rs" using assms(3) w(3) by (simp add: grants_fit_def)
  have le: "sum_list (map req_size rs) \<le> size_fd (fd_at s1 b)"
    using assms(5) w(4) by simp
  from read_all_stream [OF w(2) fit le, of n'] obtain out s2 where
    r: "read_all n' c b rs s1 = Inr (out, s2)"
      "map fst out = map (\<lambda>q. Ret (req_size q)) rs"
      "concat (map snd out) = take (sum_list (map req_size rs)) (ring_data (fd_at s1 b))"
      "size_fd (fd_at s2 b) = size_fd (fd_at s1 b) - sum_list (map req_size rs)"
    by blast
  have "length (ring_data (fd_at s1 b)) = size_fd (fd_at s1 b)"
    using w(2) by (simp add: ring_data_def stream_ready_def)
  then have "take (sum_list (map req_size rs)) (ring_data (fd_at s1 b)) = ring_data (fd_at s1 b)"
    using assms(5) w(4) by simp
  then show ?thesis
    using w(1,4,5) r assms(5) by simp
qed

theorem stream_roundtrip_witness:
  "\<exists>s1 out s2.
     write_all 0 ex_config 1 [(ENDPT 7, GRANT 1, 2, 100), (ENDPT 7, GRANT 1, 1, 101)] ex_wrapped
       = Inr ([Ret 2, Ret 1], s1)
     \<and> read_all 0 ex_config 2 [(ENDPT 8, GRANT 2, 1, 102), (ENDPT 8, GRANT 2, 3, 103)] s1
       = Inr (out, s2)
     \<and> map fst out = [Ret 1, Ret 3]
     \<and> concat (map snd out) = [120, 97, 98, 97]
     \<and> size_fd (fd_at s2 2) = 0"
proof -
  have f: "stream_ready ex_config 1 2 ex_wrapped"
    "grants_fit ex_wrapped [(ENDPT 7, GRANT 1, 2, 100), (ENDPT 7, GRANT 1, 1, 101)]"
    "grants_fit ex_wrapped [(ENDPT 8, GRANT 2, 1, 102), (ENDPT 8, GRANT 2, 3, 103)]"
    "size_fd (fd_at ex_wrapped 2)
       + sum_list (map req_size [(ENDPT 7, GRANT 1, 2, 100), (ENDPT 7, GRANT 1, 1, 101)])
     \<le> UDS_BUF ex_config"
    "sum_list (map req_size [(ENDPT 8, GRANT 2, 1, 102), (ENDPT 8, GRANT 2, 3, 103)])
     = size_fd (fd_at ex_wrapped 2)
       + sum_list (map req_size [(ENDPT 7, GRANT 1, 2, 100), (ENDPT 7, GRANT 1, 1, 101)])"
    by (simp_all add: stream_ready_def connected_def grants_fit_def ex_wrapped_def ex_pair_def
          ex_config_def ex_fd_def ex_grants_def fd_at_def fd_upd_def in_table_def)
  have d: "ring_data (fd_at ex_wrapped 2) = [120]"
    "sent ex_wrapped (ENDPT 7, GRANT 1, 2, 100) = [97, 98]"
    "sent ex_wrapped (ENDPT 7, GRANT 1, 1, 101) = [97]"
    by (simp_all add: ring_data_def sent_def ex_wrapped_def ex_pair_def
          ex_config_def ex_fd_def ex_grants_def fd_at_def fd_upd_def rotate_def rotate1_def
          numeral_3_eq_3)
  from stream_roundtrip [OF f, of 0 0] show ?thesis
    by (simp add: d del: write_all.simps read_all.simps One_nat_def)
qed

subsection \<open>C3: where a write deposits its bytes\<close>

text \<open>
  Claim C3, as amended. A write on slot \<open>h\<close> deposits bytes into no ring buffer other than
  that of the slot \<^term>\<open>write_dest c h s\<close> it resolves: the peer of \<open>h\<close> for a stream or
  sequenced-packet socket, the slot found by the address scan for a datagram socket.
  This holds through every wake-up that the write causes, when the peer link of the
  destination is unset or points back to \<open>h\<close>. The buffer of \<open>h\<close> itself is therefore
  untouched unless \<open>h\<close> is its own destination, which the address scan does not exclude.
\<close>

theorem write_deposits_only_in_destination:
  assumes "uds_write n c h endpt grant sz nonblock rid s = Inr (rc, s')"
    and "\<forall>d. write_dest c h s = Some d \<longrightarrow> peer (fd_at s d) = -1 \<or> peer (fd_at s d) = h"
  shows "\<forall>i. write_dest c h s \<noteq> Some (int i) \<longrightarrow>
           buf (uds_fd_table s' i) = buf (uds_fd_table s i)
           \<and> pos_fd (uds_fd_table s' i) = pos_fd (uds_fd_table s i)
           \<and> size_fd (uds_fd_table s' i) = size_fd (uds_fd_table s i)"
proof (cases "write_dest c h s")
  case None
  have "frame (-1) s s'"
    by (rule uds_write_wrap_frame [OF assms(1)]) (rule perform_write_body_no_dest [OF _ None])
  then show ?thesis by (simp add: frame_def)
next
  case (Some d)
  with assms(2) have "peer (fd_at s d) = -1 \<or> peer (fd_at s d) = h" by simp
  from uds_write_frame [OF assms(1) Some this] have "frame d s s'" .
  then show ?thesis using Some by (auto simp: frame_def)
qed

theorem write_deposits_only_in_destination_witness:
  "\<exists>s'. uds_write 1 ex_config 2 (ENDPT 8) (GRANT 2) 3 False 101 ex_blocked_reader
           = Inr (Ret 3, s')
      \<and> replies s' = [REPLY_TASK (ENDPT 7) 100 (Ret 3)]
      \<and> (\<forall>i. i \<noteq> 1 \<longrightarrow>
            buf (uds_fd_table s' i) = buf (uds_fd_table ex_blocked_reader i)
            \<and> pos_fd (uds_fd_table s' i) = pos_fd (uds_fd_table ex_blocked_reader i)
            \<and> size_fd (uds_fd_table s' i) = size_fd (uds_fd_table ex_blocked_reader i))"
proof -
  have "\<exists>s'. uds_write 1 ex_config 2 (ENDPT 8) (GRANT 2) 3 False 101 ex_blocked_reader
           = Inr (Ret 3, s')
      \<and> replies s' = [REPLY_TASK (ENDPT 7) 100 (Ret 3)]"
    by (simp add: uds_write_def uds_perform_write_def perform_write_body_def ring_put_def
        advance_head_def select_reader_def sys_safecopyfrom_def buf_store_def
        unsuspend_body_def perform_read_body_def ring_get_def advance_tail_def
        select_writer_def sys_safecopyto_def chardriver_reply_task_def
        ex_blocked_reader_def ex_pair_def ex_config_def ex_fd_def ex_grants_def
        fd_at_def fd_upd_def in_table_def Let_def)
  then obtain s' where
    w: "uds_write 1 ex_config 2 (ENDPT 8) (GRANT 2) 3 False 101 ex_blocked_reader
          = Inr (Ret 3, s')"
    and r: "replies s' = [REPLY_TASK (ENDPT 7) 100 (Ret 3)]"
    by blast
  have d: "write_dest ex_config 2 ex_blocked_reader = Some 1"
    "peer (fd_at ex_blocked_reader 1) = 2"
    by (simp_all add: write_dest_def conn_oriented_def ex_blocked_reader_def ex_pair_def
          ex_fd_def fd_at_def fd_upd_def)
  from write_deposits_only_in_destination [OF w] d
  have "\<forall>i. i \<noteq> 1 \<longrightarrow>
            buf (uds_fd_table s' i) = buf (uds_fd_table ex_blocked_reader i)
            \<and> pos_fd (uds_fd_table s' i) = pos_fd (uds_fd_table ex_blocked_reader i)
            \<and> size_fd (uds_fd_table s' i) = size_fd (uds_fd_table ex_blocked_reader i)"
    by simp
  with w r show ?thesis by blast
qed

text \<open>
  Claim C3 as stated fails: a datagram socket that is bound to the address it sends to is
  found by its own address scan, and its write lands in its own ring buffer.
\<close>

theorem dgram_write_to_self_counterexample:
  "type (fd_at ex_dgram_self 1) = SOCK_DGRAM
   \<and> locate_peer ex_config 1 ex_dgram_self = Some 1
   \<and> size_fd (fd_at ex_dgram_self 1) = 0
   \<and> map_sum id fst
       (uds_write 0 ex_config 1 (ENDPT 7) (GRANT 1) 3 False 100 ex_dgram_self) = Inr (Ret 3)
   \<and> buf (fd_at (snd (projr
         (uds_write 0 ex_config 1 (ENDPT 7) (GRANT 1) 3 False 100 ex_dgram_self))) 1)
       = [97, 98, 99, 0]
   \<and> size_fd (fd_at (snd (projr
         (uds_write 0 ex_config 1 (ENDPT 7) (GRANT 1) 3 False 100 ex_dgram_self))) 1) = 3"
  by (simp add: uds_write_def uds_perform_write_def perform_write_body_def ring_put_def
        advance_head_def select_reader_def sys_safecopyfrom_def buf_store_def
        locate_peer_def zero_fd_def zero_sockaddr_def
        ex_dgram_self_def ex_dgram_def ex_config_def ex_fd_def ex_grants_def
        fd_at_def fd_upd_def in_table_def Let_def upt_rec)


end
